theory Spec2Isabelle
  imports Main "HOL-Library.Char_ord" "HOL-Library.List_Lexorder"
begin

section \<open>The data of lib/ls.js\<close>

text \<open>
  The program walks the tree that Arborist's \<open>loadActual\<close> returns. Arborist nodes are
  shared JavaScript objects: the same node can be the target of several edges, and ls.js
  attaches symbol-keyed properties to it. The nodes of the loaded tree are therefore kept
  in a list and referred to by their index; the root (\<open>tree\<close>) is index 0. Strings are
  lists of characters with codes below 256.
\<close>

type_synonym package = "(string \<times> string) list"
  \<comment> \<open>the parsed package.json: its keys with their values\<close>

record edge =
  e_name :: string
  e_spec :: string
  e_type :: string
  e_to :: "nat option"          \<comment> \<open>\<open>edge.to\<close>: index of the target node, or null\<close>
  e_from_pkgid :: string        \<comment> \<open>\<open>edge.from.pkgid\<close>\<close>
  e_missing :: bool
  e_optional :: bool
  e_invalid :: bool
  e_dev :: bool
  e_peer :: bool
  e_peerOptional :: bool

record node =
  n_pkgid :: string
  n_path :: string
  n_realpath :: string
  n_extraneous :: bool
  n_isRoot :: bool
  n_isLink :: bool
  n_resolved :: "string option"
  n_package :: package
  n_errors :: "(string \<times> string) list"   \<comment> \<open>each error's \<open>code\<close> and \<open>path\<close>\<close>
  n_edgesOut :: "edge list"                \<comment> \<open>\<open>[...node.edgesOut.values()]\<close>\<close>
  n_children :: "nat list"                 \<comment> \<open>\<open>[...node.children.values()]\<close>\<close>
  n_satisfies :: "string \<Rightarrow> bool"          \<comment> \<open>\<open>node.satisfies(spec)\<close>\<close>

type_synonym graph = "node list"

text \<open>Every index stored in the tree denotes one of its nodes, and there is a root.\<close>

definition wf_graph :: "graph \<Rightarrow> bool" where
  "wf_graph g \<longleftrightarrow>
     g \<noteq> [] \<and>
     list_all (\<lambda>n. list_all (\<lambda>j. j < length g) (n_children n) \<and>
                   list_all (\<lambda>e. case e_to e of None \<Rightarrow> True | Some j \<Rightarrow> j < length g)
                     (n_edgesOut n)) g"

text \<open>
  The symbol-keyed properties (\<open>_parent\<close>, \<open>_include\<close>, \<open>_depth\<close>, \<open>_type\<close>,
  \<open>_invalid\<close>) that ls.js sets on traversal nodes. \<open>_include\<close> and \<open>_invalid\<close> are only
  ever tested for truthiness, so an absent one is \<open>False\<close>; \<open>_parent\<close> holds the result
  item of the parent (the second argument of \<open>getChildren\<close>).
\<close>

record annot =
  a_parent :: "nat option"
  a_include :: bool
  a_depth :: "int option"
  a_type :: "string option"
  a_invalid :: bool

definition no_annot :: annot where
  "no_annot = \<lparr>a_parent = None, a_include = False, a_depth = None, a_type = None,
               a_invalid = False\<rparr>"

text \<open>
  The plain objects ls.js creates itself: the placeholder of a missing dependency
  (line 97: \<open>name\<close>, \<open>pkgid\<close>, \<open>_missing\<close>) and the stand-in of a node seen before
  (lines 196-200: \<open>pkgid\<close>, \<open>package\<close>, \<open>_dedupe\<close>). They have no other property.
\<close>

record pobj =
  p_name :: "string option"
  p_pkgid :: string
  p_package :: "package option"
  p_missing :: "string option"
  p_dedupe :: bool
  p_ann :: annot

datatype ref = NodeRef nat | ObjRef nat

text \<open>
  The items handed to archy (line 155): a label and the list \<open>nodes\<close>, whose entries are
  other items or, for the placeholder of line 213, a string. Line 112 can set \<open>_include\<close>
  on an item.
\<close>

datatype entry = ItemRef nat | Text string

record item =
  i_label :: string
  i_nodes :: "entry list"
  i_include :: bool

record state =
  anns :: "nat \<Rightarrow> annot"       \<comment> \<open>symbol properties of the Arborist nodes, by index\<close>
  objs :: "pobj list"          \<comment> \<open>the plain objects, in order of creation\<close>
  items :: "item list"         \<comment> \<open>the result items, in order of creation\<close>
  seen :: "ref list"           \<comment> \<open>the Set \<open>seen\<close>, in insertion order\<close>
  problems :: "string list"    \<comment> \<open>the Set \<open>problems\<close>, in insertion order\<close>

record config =
  c_color :: bool
  c_depth :: int                           \<comment> \<open>a number; \<open>Infinity\<close> (never cut) is not modelled\<close>
  c_long :: bool
  c_parseable :: bool
  c_unicode :: bool
  c_dev :: bool
  c_development :: bool
  c_link :: bool
  c_only :: "string option"
  c_prod :: bool
  c_production :: bool
  c_EOL :: string                          \<comment> \<open>\<open>os.EOL\<close>\<close>
  c_root_package_json :: string            \<comment> \<open>\<open>resolve(path, 'package.json')\<close>\<close>
  c_globalDir_parent :: string             \<comment> \<open>\<open>resolve(npm.globalDir, '..')\<close>\<close>
  c_npa_type :: "string \<Rightarrow> string"          \<comment> \<open>\<open>npa(resolved).type\<close>\<close>
  c_yellow :: "string \<Rightarrow> string"            \<comment> \<open>\<open>chalk.yellow.bgBlack\<close>\<close>
  c_red :: "string \<Rightarrow> string"               \<comment> \<open>\<open>chalk.red.bgBlack\<close>\<close>
  c_green :: "string \<Rightarrow> string"             \<comment> \<open>\<open>chalk.green.bgBlack\<close>\<close>
  c_localeCompare :: "string \<Rightarrow> string \<Rightarrow> int"   \<comment> \<open>\<open>a.localeCompare(b)\<close>\<close>

datatype error =
    TypeError                 \<comment> \<open>a property read or a call on \<open>undefined\<close> or \<open>null\<close>\<close>
  | Coded string string       \<comment> \<open>\<open>Object.assign(new Error(message), { code })\<close>: code, message\<close>
  | NotAGraph                 \<comment> \<open>the input does not describe a tree of objects\<close>

datatype rendering =
    Flat string                       \<comment> \<open>the parseable text\<close>
  | Archy "item list" nat bool        \<comment> \<open>\<open>archy(result, '', { unicode })\<close>: the items, the root item\<close>

record outcome =
  o_output :: "rendering list"    \<comment> \<open>the calls of \<open>output\<close>, in order\<close>
  o_exitCode :: "int option"      \<comment> \<open>\<open>process.exitCode\<close>, when assigned\<close>
  o_thrown :: "error option"      \<comment> \<open>the error the promise is rejected with\<close>

section \<open>Reading and writing objects\<close>

datatype tobj = ANode node annot | Plain pobj

definition deref :: "graph \<Rightarrow> state \<Rightarrow> ref \<Rightarrow> tobj" where
  "deref g s r = (case r of NodeRef i \<Rightarrow> ANode (g ! i) (anns s i) | ObjRef k \<Rightarrow> Plain (objs s ! k))"

fun ann_of :: "tobj \<Rightarrow> annot" where
  "ann_of (ANode n a) = a"
| "ann_of (Plain p) = p_ann p"

fun pkgid_of :: "tobj \<Rightarrow> string" where
  "pkgid_of (ANode n a) = n_pkgid n"
| "pkgid_of (Plain p) = p_pkgid p"

fun path_of :: "tobj \<Rightarrow> string option" where
  "path_of (ANode n a) = Some (n_path n)"
| "path_of (Plain p) = None"

fun realpath_of :: "tobj \<Rightarrow> string option" where
  "realpath_of (ANode n a) = Some (n_realpath n)"
| "realpath_of (Plain p) = None"

fun package_of :: "tobj \<Rightarrow> package option" where
  "package_of (ANode n a) = Some (n_package n)"
| "package_of (Plain p) = p_package p"

fun resolved_of :: "tobj \<Rightarrow> string option" where
  "resolved_of (ANode n a) = n_resolved n"
| "resolved_of (Plain p) = None"

fun extraneous_of :: "tobj \<Rightarrow> bool" where
  "extraneous_of (ANode n a) = n_extraneous n"
| "extraneous_of (Plain p) = False"

fun isRoot_of :: "tobj \<Rightarrow> bool" where
  "isRoot_of (ANode n a) = n_isRoot n"
| "isRoot_of (Plain p) = False"

fun isLink_of :: "tobj \<Rightarrow> bool" where
  "isLink_of (ANode n a) = n_isLink n"
| "isLink_of (Plain p) = False"

fun missing_of :: "tobj \<Rightarrow> string option" where
  "missing_of (ANode n a) = None"
| "missing_of (Plain p) = p_missing p"

fun dedupe_of :: "tobj \<Rightarrow> bool" where
  "dedupe_of (ANode n a) = False"
| "dedupe_of (Plain p) = p_dedupe p"

fun satisfies_of :: "tobj \<Rightarrow> (string \<Rightarrow> bool) option" where
  "satisfies_of (ANode n a) = Some (n_satisfies n)"
| "satisfies_of (Plain p) = None"

text \<open>A string or \<open>undefined\<close> in a condition, and inside a template literal.\<close>

fun truthy :: "string option \<Rightarrow> bool" where
  "truthy None = False"
| "truthy (Some x) = (x \<noteq> [])"

fun str :: "string option \<Rightarrow> string" where
  "str None = ''undefined''"
| "str (Some x) = x"

definition ann_upd :: "(annot \<Rightarrow> annot) \<Rightarrow> ref \<Rightarrow> state \<Rightarrow> state" where
  "ann_upd f r s =
     (case r of
        NodeRef i \<Rightarrow> s\<lparr>anns := (anns s)(i := f (anns s i))\<rparr>
      | ObjRef k \<Rightarrow> s\<lparr>objs := (objs s)[k := (objs s ! k)\<lparr>p_ann := f (p_ann (objs s ! k))\<rparr>]\<rparr>)"

text \<open>\<open>Set.prototype.add\<close>: insertion order is kept, a member is not added again.\<close>

definition set_add :: "'a \<Rightarrow> 'a list \<Rightarrow> 'a list" where
  "set_add x xs = (if x \<in> set xs then xs else xs @ [x])"

text \<open>\<open>Array.prototype.join\<close> and \<open>String.prototype.trim\<close>.\<close>

fun join :: "string \<Rightarrow> string list \<Rightarrow> string" where
  "join sep [] = []"
| "join sep [x] = x"
| "join sep (x # y # ys) = x @ sep @ join sep (y # ys)"

definition is_space :: "char \<Rightarrow> bool" where
  "is_space ch \<longleftrightarrow> of_char ch \<in> {9, 10, 11, 12, 13, 32, 160 :: nat}"

definition trim :: "string \<Rightarrow> string" where
  "trim x = rev (dropWhile is_space (rev (dropWhile is_space x)))"

text \<open>
  \<open>Array.prototype.sort\<close> with a comparator: the sort is stable, an element moves in front
  of another only when the comparator says so.
\<close>

fun insert_by :: "('a \<Rightarrow> 'a \<Rightarrow> int) \<Rightarrow> 'a \<Rightarrow> 'a list \<Rightarrow> 'a list" where
  "insert_by cmp x [] = [x]"
| "insert_by cmp x (y # ys) = (if cmp x y \<le> 0 then x # y # ys else y # insert_by cmp x ys)"

fun sort_by :: "('a \<Rightarrow> 'a \<Rightarrow> int) \<Rightarrow> 'a list \<Rightarrow> 'a list" where
  "sort_by cmp [] = []"
| "sort_by cmp (x # xs) = insert_by cmp x (sort_by cmp xs)"

text \<open>
  \<open>Array.prototype.map\<close> with a callback that changes the state or throws: the callbacks
  run in order, the first error ends the call.
\<close>

fun mapE :: "('a \<Rightarrow> state \<Rightarrow> error + state \<times> 'b) \<Rightarrow> 'a list \<Rightarrow> state \<Rightarrow> error + state \<times> 'b list" where
  "mapE f [] s = Inr (s, [])"
| "mapE f (x # xs) s =
     (case f x s of
        Inl e \<Rightarrow> Inl e
      | Inr (s1, y) \<Rightarrow>
          (case mapE f xs s1 of Inl e \<Rightarrow> Inl e | Inr (s2, ys) \<Rightarrow> Inr (s2, y # ys)))"

text \<open>\<open>Array.prototype.some\<close>: stops at the first truthy answer.\<close>

fun someE :: "('a \<Rightarrow> state \<Rightarrow> error + state \<times> bool) \<Rightarrow> 'a list \<Rightarrow> state \<Rightarrow> error + state \<times> bool" where
  "someE f [] s = Inr (s, False)"
| "someE f (x # xs) s =
     (case f x s of
        Inl e \<Rightarrow> Inl e
      | Inr (s1, b) \<Rightarrow> (if b then Inr (s1, True) else someE f xs s1))"

section \<open>The functions of lib/ls.js\<close>

definition isGitNode :: "config \<Rightarrow> tobj \<Rightarrow> bool" where
  "isGitNode c node =
     (if \<not> truthy (resolved_of node) then False
      else (let type = c_npa_type c (str (resolved_of node))
            in type = ''git'' \<or> type = ''hosted''))"

text \<open>
  \<open>getHumanOutputItem\<close> (lines 52-89) returns the label and the problem. The reads
  \<open>Object.keys(node.package)\<close> and \<open>node.package.description\<close> throw when the object has
  no \<open>package\<close>.
\<close>

text \<open>The problem of lines 76-83.\<close>

definition problem_of :: "tobj \<Rightarrow> string" where
  "problem_of node =
     (if truthy (missing_of node)
      then ''missing: '' @ pkgid_of node @ '', required by '' @ str (missing_of node)
      else if a_invalid (ann_of node)
      then ''invalid: '' @ pkgid_of node @ '' '' @ str (path_of node)
      else if extraneous_of node
      then ''extraneous: '' @ pkgid_of node @ '' '' @ str (path_of node)
      else [])"

definition getHumanOutputItem :: "config \<Rightarrow> tobj \<Rightarrow> error + string \<times> string" where
  "getHumanOutputItem c node =
     (let pkgid = pkgid_of node;
          path = str (path_of node);
          printable =
            (if isRoot_of node
             then (case package_of node of
                     None \<Rightarrow> None
                   | Some pk \<Rightarrow>
                       Some (if pk = [] then path
                             else pkgid @ (if c_long c then c_EOL c else '' '') @ path))
             else Some pkgid);
          missingMsg = ''UNMET '' @ (if a_type (ann_of node) = Some ''optional'' then ''OPTIONAL '' else [])
                       @ ''DEPENDENCY '';
          description =
            (if c_long c
             then (case package_of node of
                     None \<Rightarrow> None
                   | Some pk \<Rightarrow>
                       Some (c_EOL c @ (case map_of pk ''description'' of None \<Rightarrow> [] | Some d \<Rightarrow> d)))
             else Some [])
      in case (printable, description) of
           (Some pr, Some de) \<Rightarrow>
             Inr ((if truthy (missing_of node)
                   then (if c_color c then c_yellow c missingMsg else missingMsg) else [])
                  @ pr
                  @ (if dedupe_of node then '' deduped'' else [])
                  @ (if a_invalid (ann_of node)
                     then (if c_color c then c_red c '' invalid'' else '' invalid'') else [])
                  @ (if extraneous_of node
                     then (if c_color c then c_green c '' extraneous'' else '' extraneous'') else [])
                  @ (if isGitNode c node then '' ('' @ str (resolved_of node) @ '')'' else [])
                  @ (if isLink_of node then '' -> '' @ str (realpath_of node) else [])
                  @ de,
                  problem_of node)
         | _ \<Rightarrow> Inl TypeError)"

text \<open>\<open>edgesToNodes\<close> (lines 91-104). Setting a property on \<open>null\<close> throws.\<close>

definition edgesToNodes :: "edge \<Rightarrow> state \<Rightarrow> error + state \<times> ref" where
  "edgesToNodes edge s =
     (let pkgid = e_name edge @ ''@'' @ e_spec edge;
          tag = (\<lambda>a. a\<lparr>a_type := Some (e_type edge), a_invalid := e_invalid edge\<rparr>)
      in if e_missing edge \<or> (e_optional edge \<and> e_to edge = None)
         then (let k = length (objs s);
                   s1 = s\<lparr>objs := objs s @
                          [\<lparr>p_name = Some (e_name edge), p_pkgid = pkgid, p_package = None,
                            p_missing = Some (e_from_pkgid edge), p_dedupe = False,
                            p_ann = no_annot\<rparr>]\<rparr>
               in Inr (ann_upd tag (ObjRef k) s1, ObjRef k))
         else (case e_to edge of
                 None \<Rightarrow> Inl TypeError
               | Some j \<Rightarrow> Inr (ann_upd tag (NodeRef j) s, NodeRef j)))"

text \<open>
  \<open>shouldInclude\<close> (lines 106-118). \<open>node[_parent]\<close> is a result item (line 202 stores the
  second argument of \<open>getChildren\<close> there). Items are created on line 155 with \<open>label\<close> and
  \<open>nodes\<close> only and no statement gives an item a \<open>_parent\<close>, so after \<open>p[_include] = true\<close>
  the read \<open>p = p[_parent]\<close> is \<open>undefined\<close> and the loop ends after this one round.
\<close>

definition shouldInclude :: "config \<Rightarrow> graph \<Rightarrow> ref \<Rightarrow> string \<Rightarrow> state \<Rightarrow> error + state \<times> bool" where
  "shouldInclude c g node spec s =
     (case satisfies_of (deref g s node) of
        None \<Rightarrow> Inl TypeError
      | Some satisfies \<Rightarrow>
          if satisfies spec
          then Inr (if \<not> c_parseable c
                    then (case a_parent (ann_of (deref g s node)) of
                            None \<Rightarrow> s
                          | Some p \<Rightarrow> s\<lparr>items := (items s)[p := (items s ! p)\<lparr>i_include := True\<rparr>]\<rparr>)
                    else s, True)
          else Inr (s, False))"

definition filterByPositionalArgs :: "config \<Rightarrow> graph \<Rightarrow> string list \<Rightarrow> ref \<Rightarrow> state \<Rightarrow> error + state \<times> bool" where
  "filterByPositionalArgs c g args node s =
     (if length args > 0 then someE (shouldInclude c g node) args s else Inr (s, True))"

text \<open>The callback \<open>visit\<close> of the walk (lines 151-173); it returns the new item.\<close>

definition visit :: "config \<Rightarrow> graph \<Rightarrow> ref \<Rightarrow> state \<Rightarrow> error + state \<times> nat" where
  "visit c g node s =
     (let s1 = s\<lparr>seen := set_add node (seen s)\<rparr>
      in case getHumanOutputItem c (deref g s1 node) of
           Inl e \<Rightarrow> Inl e
         | Inr (label, problem) \<Rightarrow>
             (let item = length (items s1);
                  s2 = s1\<lparr>items := items s1 @ [\<lparr>i_label = label, i_nodes = [], i_include = False\<rparr>]\<rparr>;
                  s3 = (if problem \<noteq> [] then s2\<lparr>problems := set_add problem (problems s2)\<rparr> else s2);
                  a = ann_of (deref g s3 node);
                  s4 = (case a_parent a of
                          None \<Rightarrow> s3
                        | Some p \<Rightarrow>
                            if a_include a
                            then s3\<lparr>items := (items s3)[p := (items s3 ! p)
                                     \<lparr>i_nodes := i_nodes (items s3 ! p) @ [ItemRef item]\<rparr>]\<rparr>
                            else s3);
                  s5 = (if a_parent a = None then ann_upd (\<lambda>a. a\<lparr>a_depth := Some 0\<rparr>) node s4 else s4)
              in Inr (s5, item)))"

text \<open>The three filters of lines 175-179 and the edge test of lines 184-188.\<close>

definition filterDev :: "config \<Rightarrow> ref \<Rightarrow> bool" where
  "filterDev c node \<longleftrightarrow>
     node = NodeRef 0 \<and>
     (c_dev c \<or> c_development c \<or> c_only c = Some ''dev'' \<or> c_only c = Some ''development'')"

definition filterProd :: "config \<Rightarrow> ref \<Rightarrow> bool" where
  "filterProd c node \<longleftrightarrow>
     node = NodeRef 0 \<and>
     (c_prod c \<or> c_production c \<or> c_only c = Some ''prod'' \<or> c_only c = Some ''production'')"

definition filterLink :: "config \<Rightarrow> ref \<Rightarrow> bool" where
  "filterLink c node \<longleftrightarrow> node = NodeRef 0 \<and> c_link c"

definition edge_kept :: "config \<Rightarrow> graph \<Rightarrow> ref \<Rightarrow> edge \<Rightarrow> bool" where
  "edge_kept c g node edge \<longleftrightarrow>
     (if filterDev c node then e_dev edge else True) \<and>
     (if filterProd c node then \<not> e_dev edge \<and> \<not> e_peer edge \<and> \<not> e_peerOptional edge else True) \<and>
     (if filterLink c node
      then (case e_to edge of None \<Rightarrow> False | Some j \<Rightarrow> n_isLink (g ! j)) else True)"

text \<open>The callback of the second \<open>map\<close> (lines 194-207).\<close>

definition markChild :: "config \<Rightarrow> graph \<Rightarrow> string list \<Rightarrow> ref \<Rightarrow> nat \<Rightarrow> ref \<Rightarrow> state \<Rightarrow> error + state \<times> ref" where
  "markChild c g args node nodeResult i s =
     (let (s1, i1) =
            (if i \<in> set (seen s)
             then (s\<lparr>objs := objs s @
                      [\<lparr>p_name = None, p_pkgid = pkgid_of (deref g s i),
                        p_package = package_of (deref g s i), p_missing = None, p_dedupe = True,
                        p_ann = no_annot\<rparr>]\<rparr>, ObjRef (length (objs s)))
             else (s, i));
          s2 = ann_upd (\<lambda>a. a\<lparr>a_parent := Some nodeResult\<rparr>) i1 s1
      in case filterByPositionalArgs c g args i1 s2 of
           Inl e \<Rightarrow> Inl e
         | Inr (s3, inc) \<Rightarrow>
             (let s4 = ann_upd (\<lambda>a. a\<lparr>a_include := inc\<rparr>) i1 s3;
                  d = map_option (\<lambda>x. x + 1) (a_depth (ann_of (deref g s4 node)));
                  s5 = ann_upd (\<lambda>a. a\<lparr>a_depth := d\<rparr>) i1 s4
              in Inr (s5, i1)))"

text \<open>
  \<open>getChildren\<close> (lines 174-209). A comparison with an absent depth is false, as in
  JavaScript.
\<close>

fun depth_gt :: "int option \<Rightarrow> int \<Rightarrow> bool" where
  "depth_gt None d = False"
| "depth_gt (Some x) d = (x > d)"

definition getChildren :: "config \<Rightarrow> graph \<Rightarrow> string list \<Rightarrow> ref \<Rightarrow> nat \<Rightarrow> state \<Rightarrow> error + state \<times> ref list" where
  "getChildren c g args node nodeResult s =
     (case deref g s node of
        Plain p \<Rightarrow> Inr (s, [])
      | ANode n a \<Rightarrow>
          if depth_gt (a_depth a) (c_depth c) then Inr (s, [])
          else
            (case mapE edgesToNodes (filter (edge_kept c g node) (n_edgesOut n)) s of
               Inl e \<Rightarrow> Inl e
             | Inr (s1, es) \<Rightarrow>
                 (case mapE (markChild c g args node nodeResult)
                         (es @ map NodeRef (filter (\<lambda>i. n_extraneous (g ! i)) (n_children n))) s1 of
                    Inl e \<Rightarrow> Inl e
                  | Inr (s2, kids) \<Rightarrow>
                      Inr (s2, sort_by (\<lambda>a b. c_localeCompare c (pkgid_of (deref g s2 a))
                                                 (pkgid_of (deref g s2 b))) kids))))"


section \<open>The walk\<close>

text \<open>
  Modelled from the spec: the function \<open>breadth\<close> of the package treeverse, which ls.js
  calls on line 149, is not part of the source. The specification asks for a breadth-first
  walk that processes the root and then each level, and visits an object once. The walk
  keeps a queue that starts with the tree. It takes the first object of the queue; an
  object it has visited before is dropped; otherwise it calls \<open>visit\<close> on the object,
  remembers the result, calls \<open>getChildren\<close> with the object and that result, and
  appends the children to the queue. When the queue is empty it returns the result of the
  tree. A reference that denotes no object cannot occur in JavaScript; the model stops
  there with \<open>NotAGraph\<close>.
\<close>

definition is_object :: "graph \<Rightarrow> state \<Rightarrow> ref \<Rightarrow> bool" where
  "is_object g s r = (case r of NodeRef i \<Rightarrow> i < length g | ObjRef k \<Rightarrow> k < length (objs s))"

function breadth_loop ::
  "config \<Rightarrow> graph \<Rightarrow> string list \<Rightarrow> (ref \<times> nat) list \<Rightarrow> ref list \<Rightarrow> state
     \<Rightarrow> error + state \<times> (ref \<times> nat) list" where
  "breadth_loop c g args visited [] s = Inr (s, visited)"
| "breadth_loop c g args visited (node # queue) s =
     (if node \<in> set (map fst visited) then breadth_loop c g args visited queue s
      else if \<not> is_object g s node then Inl NotAGraph
      else (case visit c g node s of
              Inl e \<Rightarrow> Inl e
            | Inr (s1, res) \<Rightarrow>
                (case getChildren c g args node res s1 of
                   Inl e \<Rightarrow> Inl e
                 | Inr (s2, kids) \<Rightarrow>
                     breadth_loop c g args ((node, res) # visited) (queue @ kids) s2)))"
  by pat_completeness auto

termination breadth_loop
proof (relation "inv_image (less_than <*lex*> less_than)
         (\<lambda>(c, g, args, visited, queue, s).
            (card {i. i < length g \<and> NodeRef i \<notin> set (map fst visited)}, length queue))",
       goal_cases)
  case 1
  show ?case by (rule wf_inv_image) (simp add: wf_lex_prod)
next
  case (2 c g args visited node queue s)
  show ?case by simp
next
  case (3 c g args visited node queue s r1 s1 res r2 s2 kids)
  show ?case
  proof (cases node)
    case (NodeRef i)
    with 3 have i: "i < length g" "NodeRef i \<notin> set (map fst visited)"
      by (simp_all add: is_object_def)
    have "card {j. j < length g \<and> NodeRef j \<notin> set (map fst ((NodeRef i, res) # visited))}
          < card {j. j < length g \<and> NodeRef j \<notin> set (map fst visited)}"
    proof (rule psubset_card_mono)
      show "finite {j. j < length g \<and> NodeRef j \<notin> set (map fst visited)}" by simp
      show "{j. j < length g \<and> NodeRef j \<notin> set (map fst ((NodeRef i, res) # visited))}
            \<subset> {j. j < length g \<and> NodeRef j \<notin> set (map fst visited)}"
        using i by auto
    qed
    with NodeRef show ?thesis by simp
  next
    case (ObjRef k)
    with 3 have "kids = []" by (auto simp add: getChildren_def deref_def)
    with ObjRef show ?thesis by auto
  qed
qed

definition breadth :: "config \<Rightarrow> graph \<Rightarrow> string list \<Rightarrow> ref \<Rightarrow> state \<Rightarrow> error + state \<times> nat" where
  "breadth c g args tree s =
     (case breadth_loop c g args [] [tree] s of
        Inl e \<Rightarrow> Inl e
      | Inr (s1, visited) \<Rightarrow>
          (case map_of visited tree of None \<Rightarrow> Inl TypeError | Some result \<Rightarrow> Inr (s1, result)))"

section \<open>The command\<close>

text \<open>The loop of lines 223-235 over \<open>seen\<close>; a plain object has no \<open>path\<close>.\<close>

fun parseable_lines :: "config \<Rightarrow> graph \<Rightarrow> state \<Rightarrow> ref list \<Rightarrow> string \<Rightarrow> string" where
  "parseable_lines c g s [] out = out"
| "parseable_lines c g s (dep # deps) out =
     parseable_lines c g s deps
       (case deref g s dep of
          Plain p \<Rightarrow> out
        | ANode n a \<Rightarrow>
            if n_path n \<noteq> [] \<and> a_include a
            then out @ n_path n
                 @ (if c_long c
                    then '':'' @ n_pkgid n
                         @ (if n_path n \<noteq> n_realpath n then '':'' @ n_realpath n else [])
                         @ (if n_extraneous n then '':EXTRANEOUS'' else [])
                         @ (if length (n_errors n) \<noteq> 0 \<and> n_path n \<noteq> c_globalDir_parent c
                            then '':ERROR'' else [])
                         @ (if a_invalid a then '':INVALID'' else [])
                    else [])
                 @ c_EOL c
            else out)"

text \<open>Lines 212-256: the placeholder, the exit code, the output and the two errors.\<close>

definition report :: "config \<Rightarrow> graph \<Rightarrow> string list \<Rightarrow> state \<Rightarrow> nat \<Rightarrow> outcome" where
  "report c g args s result =
     (let empty = (length (i_nodes (items s ! result)) = 0);
          s1 = (if empty
                then s\<lparr>items := (items s)[result := (items s ! result)\<lparr>i_nodes := [Text ''(empty)'']\<rparr>]\<rparr>
                else s);
          exitCode = (if empty \<and> length args \<noteq> 0 then Some 1 else None);
          out = (if c_parseable c then Flat (trim (parseable_lines c g s1 (seen s1) []))
                 else Archy (items s1) result (c_unicode c));
          rootError = filter (\<lambda>(code, path). code = ''EJSONPARSE'' \<and> path = c_root_package_json c)
                        (n_errors (g ! 0))
      in \<lparr>o_output = [out], o_exitCode = exitCode,
          o_thrown =
            (if rootError \<noteq> []
             then Some (Coded ''EJSONPARSE'' ''Failed to parse root package.json'')
             else if length (problems s1) \<noteq> 0
             then Some (Coded ''ELSPROBLEMS'' (join (c_EOL c) (problems s1)))
             else None)\<rparr>)"

text \<open>
  \<open>ls\<close> (lines 123-257). Lines 131-210 are the walk from the tree, whose \<open>_include\<close>
  is set first. An error thrown during the walk leaves the function before anything is
  printed. A list of nodes that is not a tree of objects (\<open>wf_graph\<close>) is not an input of
  the program; the model answers \<open>NotAGraph\<close>.
\<close>

definition init_state :: "string list \<Rightarrow> state" where
  "init_state args =
     \<lparr>anns = (\<lambda>i. no_annot)(0 := no_annot\<lparr>a_include := (length args = 0)\<rparr>),
      objs = [], items = [], seen = [], problems = []\<rparr>"

definition walk :: "config \<Rightarrow> graph \<Rightarrow> string list \<Rightarrow> error + state \<times> nat" where
  "walk c g args = breadth c g args (NodeRef 0) (init_state args)"

definition ls :: "config \<Rightarrow> graph \<Rightarrow> string list \<Rightarrow> outcome" where
  "ls c g args =
     (if \<not> wf_graph g then \<lparr>o_output = [], o_exitCode = None, o_thrown = Some NotAGraph\<rparr>
      else (case walk c g args of
              Inl e \<Rightarrow> \<lparr>o_output = [], o_exitCode = None, o_thrown = Some e\<rparr>
            | Inr (s, result) \<Rightarrow> report c g args s result))"

section \<open>Example trees\<close>

text \<open>
  Two comparators for the examples: byte order, and an order that compares letters
  without their case first (as a collation does) and falls back to byte order.
\<close>

definition byte_compare :: "string \<Rightarrow> string \<Rightarrow> int" where
  "byte_compare a b = (if a < b then - 1 else if a = b then 0 else 1)"

definition lower :: "char \<Rightarrow> char" where
  "lower ch = (if CHR ''A'' \<le> ch \<and> ch \<le> CHR ''Z'' then char_of (of_char ch + (32::nat)) else ch)"

definition caseless_compare :: "string \<Rightarrow> string \<Rightarrow> int" where
  "caseless_compare a b =
     (if map lower a < map lower b then - 1
      else if map lower b < map lower a then 1
      else byte_compare a b)"

definition ex_config :: "int \<Rightarrow> bool \<Rightarrow> bool \<Rightarrow> config" where
  "ex_config d p l =
     \<lparr>c_color = False, c_depth = d, c_long = l, c_parseable = p, c_unicode = False,
      c_dev = False, c_development = False, c_link = False, c_only = None, c_prod = False,
      c_production = False, c_EOL = [CHR 0x0A], c_root_package_json = ''/w/package.json'',
      c_globalDir_parent = ''/usr/lib'', c_npa_type = (\<lambda>x. ''registry''),
      c_yellow = (\<lambda>x. x), c_red = (\<lambda>x. x), c_green = (\<lambda>x. x),
      c_localeCompare = byte_compare\<rparr>"

definition ex_dep :: "string \<Rightarrow> string \<Rightarrow> nat \<Rightarrow> edge" where
  "ex_dep from name j =
     \<lparr>e_name = name, e_spec = ''^1.0.0'', e_type = ''prod'', e_to = Some j,
      e_from_pkgid = from @ ''@1.0.0'', e_missing = False, e_optional = False, e_invalid = False,
      e_dev = False, e_peer = False, e_peerOptional = False\<rparr>"

definition ex_missing_dep :: "string \<Rightarrow> string \<Rightarrow> edge" where
  "ex_missing_dep from name = (ex_dep from name 0)\<lparr>e_to := None, e_missing := True\<rparr>"

definition ex_pkg :: "string \<Rightarrow> edge list \<Rightarrow> node" where
  "ex_pkg name es =
     \<lparr>n_pkgid = name @ ''@1.0.0'', n_path = ''/w/node_modules/'' @ name,
      n_realpath = ''/w/node_modules/'' @ name, n_extraneous = False, n_isRoot = False,
      n_isLink = False, n_resolved = None, n_package = [(''name'', name)], n_errors = [],
      n_edgesOut = es, n_children = [], n_satisfies = (\<lambda>spec. spec = name)\<rparr>"

definition ex_root :: "edge list \<Rightarrow> nat list \<Rightarrow> node" where
  "ex_root es ch =
     (ex_pkg ''w'' es)\<lparr>n_path := ''/w'', n_realpath := ''/w'', n_isRoot := True, n_children := ch\<rparr>"

text \<open>w depends on a; w depends on a, which depends on bar; w depends on a and b, which
  both depend on c; w depends on bar, which is not installed; w has an installed package x
  that nothing declares; w depends on abbrev and JSONStream.\<close>

definition ex_single :: graph where
  "ex_single = [ex_root [ex_dep ''w'' ''a'' 1] [1], ex_pkg ''a'' []]"

definition ex_chain :: graph where
  "ex_chain = [ex_root [ex_dep ''w'' ''a'' 1] [1, 2], ex_pkg ''a'' [ex_dep ''a'' ''bar'' 2], ex_pkg ''bar'' []]"

definition ex_diamond :: graph where
  "ex_diamond =
     [ex_root [ex_dep ''w'' ''a'' 1, ex_dep ''w'' ''b'' 2] [1, 2, 3],
      ex_pkg ''a'' [ex_dep ''a'' ''c'' 3], ex_pkg ''b'' [ex_dep ''b'' ''c'' 3], ex_pkg ''c'' []]"

definition ex_missing :: graph where
  "ex_missing = [ex_root [ex_missing_dep ''w'' ''bar''] []]"

definition ex_extraneous :: graph where
  "ex_extraneous = [ex_root [ex_dep ''w'' ''a'' 1] [1, 2], ex_pkg ''a'' [], (ex_pkg ''x'' [])\<lparr>n_extraneous := True\<rparr>]"

definition ex_case :: graph where
  "ex_case = [ex_root [ex_dep ''w'' ''JSONStream'' 1, ex_dep ''w'' ''abbrev'' 2] [1, 2],
              ex_pkg ''JSONStream'' [], ex_pkg ''abbrev'' []]"

text \<open>The state and the result item at the end of a walk that did not throw.\<close>

definition final_state :: "config \<Rightarrow> graph \<Rightarrow> string list \<Rightarrow> state" where
  "final_state c g args = fst (projr (walk c g args))"

definition final_result :: "config \<Rightarrow> graph \<Rightarrow> string list \<Rightarrow> nat" where
  "final_result c g args = snd (projr (walk c g args))"

section \<open>The parseable output in the words of the specification\<close>

text \<open>
  The specification describes the parseable output as one line for each visited node that
  is included and has an installation path. \<open>spec_listed\<close> says which visited objects
  get a line and \<open>spec_line\<close> what the line is; \<open>isNode\<close> is
  \<open>instanceof Arborist.Node\<close>.
\<close>

fun isNode :: "ref \<Rightarrow> bool" where
  "isNode (NodeRef i) = True"
| "isNode (ObjRef k) = False"



section \<open>The invariant of the walk on depths\<close>

text \<open>
  \<open>the_ann\<close> reads the symbol properties of an object; an object is allocated when it is
  an Arborist node or a plain object created so far. A depth is in range when it is set,
  not negative and at most one more than the maximum (or 0, for the root, when the maximum
  is below -1). During the walk every visited object has a depth in range, and every
  other object either has no parent yet or has a depth in range.
\<close>

definition the_ann :: "state \<Rightarrow> ref \<Rightarrow> annot" where
  "the_ann s r = (case r of NodeRef i \<Rightarrow> anns s i | ObjRef k \<Rightarrow> p_ann (objs s ! k))"

definition allocated :: "state \<Rightarrow> ref \<Rightarrow> bool" where
  "allocated s r = (case r of NodeRef i \<Rightarrow> True | ObjRef k \<Rightarrow> k < length (objs s))"

definition depth_ok :: "config \<Rightarrow> annot \<Rightarrow> bool" where
  "depth_ok c a = (case a_depth a of None \<Rightarrow> False | Some x \<Rightarrow> 0 \<le> x \<and> x \<le> max 0 (c_depth c + 1))"

definition depth_pending :: "config \<Rightarrow> annot \<Rightarrow> bool" where
  "depth_pending c a \<longleftrightarrow> a_parent a = None \<or> depth_ok c a"

definition depth_inv :: "config \<Rightarrow> state \<Rightarrow> bool" where
  "depth_inv c s \<longleftrightarrow>
     (\<forall>r \<in> set (seen s). allocated s r \<and> depth_ok c (the_ann s r)) \<and>
     (\<forall>r. allocated s r \<longrightarrow> depth_pending c (the_ann s r))"

section \<open>Auxiliary facts\<close>

subsection \<open>Sorting, mapping and the cases of getChildren\<close>

lemma set_insert_by: "set (insert_by cmp x xs) = insert x (set xs)"
  by (induction xs) auto

lemma sorted_insert_by:
  assumes total: "\<And>a b. cmp a b \<le> 0 \<or> cmp b a \<le> 0"
      and trans: "\<And>a b d. cmp a b \<le> 0 \<Longrightarrow> cmp b d \<le> 0 \<Longrightarrow> cmp a d \<le> 0"
  shows "sorted_wrt (\<lambda>a b. cmp a b \<le> 0) xs \<Longrightarrow> sorted_wrt (\<lambda>a b. cmp a b \<le> 0) (insert_by cmp x xs)"
proof (induction xs)
  case Nil
  then show ?case by simp
next
  case (Cons y ys)
  show ?case
  proof (cases "cmp x y \<le> 0")
    case True
    with Cons.prems trans show ?thesis by auto
  next
    case False
    with total have "cmp y x \<le> 0" by blast
    with False Cons show ?thesis by (auto simp: set_insert_by)
  qed
qed

lemma sorted_sort_by:
  assumes total: "\<And>a b. cmp a b \<le> 0 \<or> cmp b a \<le> 0"
      and trans: "\<And>a b d. cmp a b \<le> 0 \<Longrightarrow> cmp b d \<le> 0 \<Longrightarrow> cmp a d \<le> 0"
  shows "sorted_wrt (\<lambda>a b. cmp a b \<le> 0) (sort_by cmp xs)"
  by (induction xs) (simp_all add: sorted_insert_by[OF total trans])

lemma length_insert_by: "length (insert_by cmp x xs) = Suc (length xs)"
  by (induction xs) auto

lemma length_sort_by: "length (sort_by cmp xs) = length xs"
  by (induction xs) (simp_all add: length_insert_by)

lemma set_sort_by: "set (sort_by cmp xs) = set xs"
  by (induction xs) (simp_all add: set_insert_by)

lemma mapE_length: "mapE f xs s = Inr (s', ys) \<Longrightarrow> length ys = length xs"
  by (induction xs arbitrary: s s' ys) (auto split: sum.splits prod.splits)

lemma mapE_invariant:
  assumes "mapE f xs s = Inr (s', ys)" and "P s"
      and step: "\<And>x s s' y. x \<in> set xs \<Longrightarrow> P s \<Longrightarrow> f x s = Inr (s', y) \<Longrightarrow> P s'"
  shows "P s'"
  using assms
proof (induction xs arbitrary: s s' ys)
  case Nil
  then show ?case by simp
next
  case (Cons a xs)
  from Cons.prems(1) obtain s1 y ys' where
    1: "f a s = Inr (s1, y)" and 2: "mapE f xs s1 = Inr (s', ys')"
    by (auto split: sum.splits prod.splits)
  have "P s1" using Cons.prems(3)[OF _ Cons.prems(2) 1] by simp
  then show ?case using Cons.IH[OF 2] Cons.prems(3) by auto
qed

lemma getChildren_cases:
  assumes "getChildren c g args node nodeResult s = Inr (s', kids)"
  obtains (leaf) "s' = s" "kids = []"
    "(\<exists>k. node = ObjRef k) \<or> (\<exists>i. node = NodeRef i \<and> depth_gt (a_depth (anns s i)) (c_depth c))"
  | (expand) i s1 es ks where "node = NodeRef i" "\<not> depth_gt (a_depth (anns s i)) (c_depth c)"
      "mapE edgesToNodes (filter (edge_kept c g node) (n_edgesOut (g ! i))) s = Inr (s1, es)"
      "mapE (markChild c g args node nodeResult)
         (es @ map NodeRef (filter (\<lambda>j. n_extraneous (g ! j)) (n_children (g ! i)))) s1 = Inr (s', ks)"
      "kids = sort_by (\<lambda>a b. c_localeCompare c (pkgid_of (deref g s' a)) (pkgid_of (deref g s' b))) ks"
  using assms
  by (cases node) (auto simp: getChildren_def deref_def split: if_splits sum.splits prod.splits)

lemma byte_compare_le: "byte_compare a b \<le> 0 \<longleftrightarrow> a \<le> b"
  by (auto simp: byte_compare_def)

lemma ex_cfg_cmp [simp]: "c_localeCompare (ex_config d p l) = byte_compare"
  by (simp add: ex_config_def)

subsection \<open>An invariant rule for the walk\<close>

lemma breadth_loop_invariant:
  assumes run: "breadth_loop c g args visited queue s = Inr (s', visited')"
      and init: "I visited queue s"
      and skip: "\<And>visited node queue s.
             I visited (node # queue) s \<Longrightarrow> node \<in> set (map fst visited) \<Longrightarrow> I visited queue s"
      and step: "\<And>visited node queue s s1 res s2 kids.
             I visited (node # queue) s \<Longrightarrow> node \<notin> set (map fst visited) \<Longrightarrow> is_object g s node \<Longrightarrow>
             visit c g node s = Inr (s1, res) \<Longrightarrow> getChildren c g args node res s1 = Inr (s2, kids) \<Longrightarrow>
             I ((node, res) # visited) (queue @ kids) s2"
  shows "I visited' [] s'"
proof -
  have "breadth_loop c0 g0 args0 visited queue s = Inr (s', visited') \<Longrightarrow>
        c0 = c \<Longrightarrow> g0 = g \<Longrightarrow> args0 = args \<Longrightarrow> I visited queue s \<Longrightarrow> I visited' [] s'"
    for c0 g0 args0
  proof (induction c0 g0 args0 visited queue s rule: breadth_loop.induct)
    case (1 c0 g0 args0 visited s)
    then show ?case by simp
  next
    case (2 c0 g0 args0 visited node queue s)
    note eqs = "2.prems"(2,3,4)
    show ?case
    proof (cases "node \<in> set (map fst visited)")
      case True
      with "2.prems"(1) have r: "breadth_loop c0 g0 args0 visited queue s = Inr (s', visited')"
        by simp
      have i: "I visited queue s" using skip[OF "2.prems"(5) True] .
      show ?thesis by (rule "2.IH"(1)[OF True r eqs i])
    next
      case False
      with "2.prems"(1) obtain s1 res s2 kids where io: "is_object g0 s node"
        and v: "visit c0 g0 node s = Inr (s1, res)"
        and gc: "getChildren c0 g0 args0 node res s1 = Inr (s2, kids)"
        and r: "breadth_loop c0 g0 args0 ((node, res) # visited) (queue @ kids) s2 = Inr (s', visited')"
        by (auto split: if_splits sum.splits prod.splits)
      have i: "I ((node, res) # visited) (queue @ kids) s2"
        using step[OF "2.prems"(5) False] io v gc eqs by simp
      have nio: "\<not> \<not> is_object g0 s node" using io by simp
      show ?thesis
        by (rule "2.IH"(2)[OF False nio v refl gc refl r eqs i])
    qed
  qed
  from this[OF run refl refl refl init] show ?thesis .
qed

subsection \<open>What the callbacks leave unchanged\<close>

lemma ann_upd_fields [simp]:
  "seen (ann_upd f r s) = seen s"
  "problems (ann_upd f r s) = problems s"
  "items (ann_upd f r s) = items s"
  "length (objs (ann_upd f r s)) = length (objs s)"
  by (simp_all add: ann_upd_def split: ref.splits)

lemma map_update_same: "map f (xs[p := y]) = map f xs" if "f y = f (xs ! p)"
  using that by (cases "p < length xs") (auto simp: list_eq_iff_nth_eq nth_list_update)

lemma shouldInclude_frame:
  assumes "shouldInclude c g node spec s = Inr (s', b)"
  shows "anns s' = anns s \<and> objs s' = objs s \<and> seen s' = seen s \<and> problems s' = problems s \<and>
         map i_nodes (items s') = map i_nodes (items s) \<and>
         map i_label (items s') = map i_label (items s)"
  using assms
  by (auto simp: shouldInclude_def map_update_same split: option.splits if_splits)

lemma someE_invariant:
  assumes "someE f xs s = Inr (s', b)" and "P s"
      and step: "\<And>x s s' y. x \<in> set xs \<Longrightarrow> P s \<Longrightarrow> f x s = Inr (s', y) \<Longrightarrow> P s'"
  shows "P s'"
  using assms
proof (induction xs arbitrary: s)
  case Nil
  then show ?case by simp
next
  case (Cons a xs)
  from Cons.prems(1) obtain s1 y where 1: "f a s = Inr (s1, y)"
    and 2: "(y \<and> s' = s1) \<or> someE f xs s1 = Inr (s', b)"
    by (auto split: sum.splits prod.splits if_splits)
  have p: "P s1" using Cons.prems(3)[OF _ Cons.prems(2) 1] by simp
  from 2 show ?case
  proof
    assume "y \<and> s' = s1"
    with p show ?thesis by simp
  next
    assume "someE f xs s1 = Inr (s', b)"
    from Cons.IH[OF this p] Cons.prems(3) show ?thesis by auto
  qed
qed

lemma filterByPositionalArgs_frame:
  assumes "filterByPositionalArgs c g args node s = Inr (s', b)"
  shows "anns s' = anns s \<and> objs s' = objs s \<and> seen s' = seen s \<and> problems s' = problems s \<and>
         map i_nodes (items s') = map i_nodes (items s) \<and>
         map i_label (items s') = map i_label (items s)"
proof (cases "length args > 0")
  case True
  with assms have run: "someE (shouldInclude c g node) args s = Inr (s', b)"
    by (simp add: filterByPositionalArgs_def)
  show ?thesis
    by (rule someE_invariant[OF run, where P = "\<lambda>t. anns t = anns s \<and> objs t = objs s \<and>
          seen t = seen s \<and> problems t = problems s \<and>
          map i_nodes (items t) = map i_nodes (items s) \<and>
          map i_label (items t) = map i_label (items s)"])
       (auto dest: shouldInclude_frame)
next
  case False
  with assms show ?thesis by (simp add: filterByPositionalArgs_def)
qed

lemma edgesToNodes_frame:
  assumes "edgesToNodes edge s = Inr (s', r)"
  shows "seen s' = seen s \<and> problems s' = problems s \<and> items s' = items s"
  using assms
  by (auto simp: edgesToNodes_def Let_def split: if_splits option.splits)


lemma markChild_frame:
  assumes "markChild c g args node res i s = Inr (s', r)"
  shows "seen s' = seen s \<and> problems s' = problems s \<and>
         map i_nodes (items s') = map i_nodes (items s) \<and>
         map i_label (items s') = map i_label (items s)"
proof (cases "i \<in> set (seen s)")
  case True
  with assms show ?thesis
    by (auto simp: markChild_def Let_def split: sum.splits prod.splits
             dest!: filterByPositionalArgs_frame)
next
  case False
  with assms show ?thesis
    by (auto simp: markChild_def Let_def split: sum.splits prod.splits
             dest!: filterByPositionalArgs_frame)
qed

lemma getChildren_frame:
  assumes "getChildren c g args node res s = Inr (s', kids)"
  shows "seen s' = seen s \<and> problems s' = problems s \<and>
         map i_nodes (items s') = map i_nodes (items s) \<and>
         map i_label (items s') = map i_label (items s)"
  using assms
proof (cases rule: getChildren_cases)
  case leaf
  then show ?thesis by simp
next
  case (expand i s1 es ks)
  have 1: "seen s1 = seen s \<and> problems s1 = problems s \<and> items s1 = items s"
    by (rule mapE_invariant[OF expand(3), where P = "\<lambda>t. seen t = seen s \<and> problems t = problems s \<and> items t = items s"])
       (auto dest: edgesToNodes_frame)
  have 2: "seen s' = seen s1 \<and> problems s' = problems s1 \<and>
         map i_nodes (items s') = map i_nodes (items s1) \<and>
         map i_label (items s') = map i_label (items s1)"
    by (rule mapE_invariant[OF expand(4), where P = "\<lambda>t. seen t = seen s1 \<and> problems t = problems s1 \<and>
         map i_nodes (items t) = map i_nodes (items s1) \<and>
         map i_label (items t) = map i_label (items s1)"])
       (auto dest: markChild_frame)
  from 1 2 show ?thesis by simp
qed


lemma visit_seen:
  assumes "visit c g node s = Inr (s', res)"
  shows "seen s' = set_add node (seen s)"
  using assms
  by (auto simp: visit_def Let_def split: sum.splits prod.splits option.splits if_splits)


lemma deref_simps [simp]:
  "deref g (s\<lparr>seen := x\<rparr>) r = deref g s r"
  "deref g (s\<lparr>items := y\<rparr>) r = deref g s r"
  "deref g (s\<lparr>problems := z\<rparr>) r = deref g s r"
  by (simp_all add: deref_def split: ref.splits)


lemma visit_res:
  assumes "visit c g node s = Inr (s', res)"
  shows "res = length (items s)" and "length (items s') = Suc (length (items s))"
  using assms
  by (auto simp: visit_def Let_def split: sum.splits prod.splits option.splits if_splits)


subsection \<open>Facts about a finished walk\<close>

lemma walk_loop:
  assumes "walk c g args = Inr (s, result)"
  obtains visited where "breadth_loop c g args [] [NodeRef 0] (init_state args) = Inr (s, visited)"
    and "map_of visited (NodeRef 0) = Some result"
  using assms
  by (auto simp: walk_def breadth_def split: sum.splits prod.splits option.splits)





lemma walk_result_valid:
  assumes "walk c g args = Inr (s, result)"
  shows "result < length (items s)"
proof -
  from assms obtain visited where
    run: "breadth_loop c g args [] [NodeRef 0] (init_state args) = Inr (s, visited)"
    and res: "map_of visited (NodeRef 0) = Some result"
    by (rule walk_loop)
  have "\<forall>(r, i) \<in> set visited. i < length (items s)"
  proof (rule breadth_loop_invariant[OF run, where I = "\<lambda>v q t. \<forall>(r, i) \<in> set v. i < length (items t)"],
         goal_cases)
    case 1
    show ?case by simp
  next
    case (2 visited node queue s)
    then show ?case by simp
  next
    case (3 visited node queue s s1 res s2 kids)
    from getChildren_frame[OF 3(5)] have "length (items s2) = length (items s1)"
      by (auto dest: map_eq_imp_length_eq)
    with visit_res[OF 3(4)] 3(1) show ?case by auto
  qed
  with map_of_SomeD[OF res] show ?thesis by auto
qed

lemma ls_report:
  assumes "wf_graph g" and "walk c g args = Inr (s, result)"
  shows "ls c g args = report c g args s result"
  using assms by (simp add: ls_def)


lemma walk_final:
  "\<not> isl (walk c g args) \<Longrightarrow> walk c g args = Inr (final_state c g args, final_result c g args)"
  by (cases "walk c g args") (auto simp: final_state_def final_result_def)

lemma parseable_lines_nodes_only:
  "parseable_lines c g (s\<lparr>objs := os\<rparr>) (filter isNode deps) out = parseable_lines c g s deps out"
proof (induction deps arbitrary: out)
  case Nil
  show ?case by simp
next
  case (Cons dep deps)
  show ?case by (cases dep) (simp_all add: Cons.IH deref_def)
qed

subsection \<open>The depth invariant\<close>

lemma ann_of_deref: "ann_of (deref g s r) = the_ann s r"
  by (cases r) (simp_all add: deref_def the_ann_def)

lemma the_ann_fields [simp]:
  "the_ann (s\<lparr>seen := x\<rparr>) r = the_ann s r"
  "the_ann (s\<lparr>items := y\<rparr>) r = the_ann s r"
  "the_ann (s\<lparr>problems := z\<rparr>) r = the_ann s r"
  by (simp_all add: the_ann_def split: ref.splits)

lemma allocated_fields [simp]:
  "allocated (s\<lparr>seen := x\<rparr>) r = allocated s r"
  "allocated (s\<lparr>items := y\<rparr>) r = allocated s r"
  "allocated (s\<lparr>problems := z\<rparr>) r = allocated s r"
  "allocated (ann_upd f r' s) r = allocated s r"
  by (simp_all add: allocated_def ann_upd_def split: ref.splits)

lemma the_ann_ann_upd_same: "allocated s r \<Longrightarrow> the_ann (ann_upd f r s) r = f (the_ann s r)"
  by (cases r) (simp_all add: the_ann_def ann_upd_def allocated_def)

lemma the_ann_ann_upd_other: "r' \<noteq> r \<Longrightarrow> the_ann (ann_upd f r s) r' = the_ann s r'"
  by (cases r; cases r') (simp_all add: the_ann_def ann_upd_def)

lemma ann_upd_commute [simp]:
  "ann_upd f r (s\<lparr>items := y\<rparr>) = (ann_upd f r s)\<lparr>items := y\<rparr>"
  "ann_upd f r (s\<lparr>seen := x\<rparr>) = (ann_upd f r s)\<lparr>seen := x\<rparr>"
  "ann_upd f r (s\<lparr>problems := z\<rparr>) = (ann_upd f r s)\<lparr>problems := z\<rparr>"
  by (simp_all add: ann_upd_def split: ref.splits)

lemma ann_upd_ann_upd: "ann_upd f r (ann_upd h r s) = ann_upd (\<lambda>a. f (h a)) r s"
proof (cases r)
  case (NodeRef i)
  then show ?thesis by (simp add: ann_upd_def)
next
  case (ObjRef k)
  then show ?thesis
    by (cases "k < length (objs s)") (simp_all add: ann_upd_def list_update_beyond not_less)
qed

lemma the_ann_alloc:
  "allocated s r \<Longrightarrow> the_ann (s\<lparr>objs := objs s @ [p]\<rparr>) r = the_ann s r"
  "the_ann (s\<lparr>objs := objs s @ [p]\<rparr>) (ObjRef (length (objs s))) = p_ann p"
  by (simp_all add: the_ann_def allocated_def nth_append split: ref.splits)

lemma allocated_alloc:
  "allocated (s\<lparr>objs := objs s @ [p]\<rparr>) r \<longleftrightarrow> allocated s r \<or> r = ObjRef (length (objs s))"
  by (auto simp: allocated_def split: ref.splits)

lemma depth_inv_fields [simp]:
  "depth_inv c (s\<lparr>items := y\<rparr>) = depth_inv c s"
  "depth_inv c (s\<lparr>problems := z\<rparr>) = depth_inv c s"
  by (simp_all add: depth_inv_def)

lemma depth_inv_fresh:
  "depth_inv c s \<Longrightarrow> ObjRef (length (objs s)) \<notin> set (seen s)"
  by (auto simp: depth_inv_def allocated_def)

lemma depth_inv_alloc:
  assumes "depth_inv c s" and "a_parent (p_ann p) = None"
  shows "depth_inv c (s\<lparr>objs := objs s @ [p]\<rparr>)"
proof -
  let ?s = "s\<lparr>objs := objs s @ [p]\<rparr>"
  have 1: "allocated ?s r \<and> depth_ok c (the_ann ?s r)" if "r \<in> set (seen ?s)" for r
  proof -
    from that assms(1) have "allocated s r" "depth_ok c (the_ann s r)"
      by (auto simp: depth_inv_def)
    then show ?thesis by (simp add: allocated_alloc the_ann_alloc)
  qed
  have 2: "depth_pending c (the_ann ?s r)" if "allocated ?s r" for r
  proof -
    from that consider "allocated s r" | "r = ObjRef (length (objs s))"
      by (auto simp: allocated_alloc)
    then show ?thesis
    proof cases
      case 1
      with assms(1) show ?thesis by (simp add: the_ann_alloc depth_inv_def)
    next
      case 2
      with assms(2) show ?thesis by (simp add: the_ann_alloc depth_pending_def)
    qed
  qed
  from 1 2 show ?thesis unfolding depth_inv_def by blast
qed

lemma depth_inv_neutral:
  assumes "depth_inv c s" and "\<And>a. a_depth (f a) = a_depth a" and "\<And>a. a_parent (f a) = a_parent a"
  shows "depth_inv c (ann_upd f r s)"
proof -
  have ok: "depth_ok c (f a) = depth_ok c a" and pd: "depth_pending c (f a) = depth_pending c a" for a
    by (simp_all add: depth_ok_def depth_pending_def assms(2,3))
  have eq: "allocated s r' \<Longrightarrow> depth_ok c (the_ann (ann_upd f r s) r') = depth_ok c (the_ann s r') \<and>
            depth_pending c (the_ann (ann_upd f r s) r') = depth_pending c (the_ann s r')" for r'
    by (cases "r' = r") (simp_all add: the_ann_ann_upd_same the_ann_ann_upd_other ok pd)
  from assms(1) show ?thesis
    by (auto simp: depth_inv_def eq)
qed

lemma depth_inv_mark:
  assumes "depth_inv c s" and "r \<notin> set (seen s)" and "depth_pending c (f (the_ann s r))"
  shows "depth_inv c (ann_upd f r s)"
proof -
  let ?s = "ann_upd f r s"
  have 1: "allocated ?s r' \<and> depth_ok c (the_ann ?s r')" if "r' \<in> set (seen ?s)" for r'
  proof -
    from that assms(1,2) have "allocated s r'" "depth_ok c (the_ann s r')" "r' \<noteq> r"
      by (auto simp: depth_inv_def)
    then show ?thesis by (simp add: the_ann_ann_upd_other)
  qed
  have 2: "depth_pending c (the_ann ?s r')" if a: "allocated ?s r'" for r'
  proof (cases "r' = r")
    case True
    with a assms(3) show ?thesis by (simp add: the_ann_ann_upd_same)
  next
    case False
    with a assms(1) show ?thesis by (simp add: the_ann_ann_upd_other depth_inv_def)
  qed
  from 1 2 show ?thesis unfolding depth_inv_def by blast
qed

lemma ann_upd_unallocated: "\<not> allocated s r \<Longrightarrow> ann_upd f r s = s"
  by (cases r) (simp_all add: allocated_def ann_upd_def list_update_beyond not_less)

lemma a_depth_neutral:
  assumes "\<And>a. a_depth (f a) = a_depth a"
  shows "a_depth (the_ann (ann_upd f r s) r') = a_depth (the_ann s r')"
proof (cases "r' = r")
  case True
  then show ?thesis
    by (cases "allocated s r") (simp_all add: the_ann_ann_upd_same ann_upd_unallocated assms)
next
  case False
  then show ?thesis by (simp add: the_ann_ann_upd_other)
qed

lemma edgesToNodes_depth_inv:
  assumes "edgesToNodes edge s = Inr (s', r)" and "depth_inv c s"
  shows "depth_inv c s'"
  using assms
  by (auto simp: edgesToNodes_def Let_def no_annot_def split: if_splits option.splits
           intro!: depth_inv_neutral depth_inv_alloc)

lemma edgesToNodes_depth_of:
  assumes "edgesToNodes edge s = Inr (s', r)" and "allocated s node"
  shows "a_depth (the_ann s' node) = a_depth (the_ann s node)"
  using assms
  by (auto simp: edgesToNodes_def Let_def a_depth_neutral the_ann_alloc
           split: if_splits option.splits)

lemma filterByPositionalArgs_items:
  assumes "filterByPositionalArgs c g args node s = Inr (s', b)"
  shows "s' = s\<lparr>items := items s'\<rparr>"
  using filterByPositionalArgs_frame[OF assms] by (intro state.equality) simp_all

lemma markChild_depth_inv:
  assumes run: "markChild c g args node res i s = Inr (s', r)"
      and inv: "depth_inv c s" and sn: "node \<in> set (seen s)"
      and d: "a_depth (the_ann s node) = Some x" and x: "0 \<le> x" "x \<le> c_depth c"
  shows "depth_inv c s' \<and> a_depth (the_ann s' node) = Some x"
proof -
  define s1 where "s1 = (if i \<in> set (seen s)
     then s\<lparr>objs := objs s @
            [\<lparr>p_name = None, p_pkgid = pkgid_of (deref g s i),
              p_package = package_of (deref g s i), p_missing = None, p_dedupe = True,
              p_ann = no_annot\<rparr>]\<rparr>
     else s)"
  define i1 where "i1 = (if i \<in> set (seen s) then ObjRef (length (objs s)) else i)"
  define s2 where "s2 = ann_upd (\<lambda>a. a\<lparr>a_parent := Some res\<rparr>) i1 s1"
  from run obtain s3 inc where
    f: "filterByPositionalArgs c g args i1 s2 = Inr (s3, inc)"
    and s': "s' = ann_upd (\<lambda>a. a\<lparr>a_depth := map_option (\<lambda>x. x + 1)
                     (a_depth (the_ann (ann_upd (\<lambda>a. a\<lparr>a_include := inc\<rparr>) i1 s3) node))\<rparr>) i1
                 (ann_upd (\<lambda>a. a\<lparr>a_include := inc\<rparr>) i1 s3)"
    by (auto simp: markChild_def Let_def s1_def i1_def s2_def ann_of_deref
             split: if_splits sum.splits prod.splits)
  have an: "allocated s node" using inv sn by (simp add: depth_inv_def)
  have fresh: "i1 \<notin> set (seen s)" using depth_inv_fresh[OF inv] by (simp add: i1_def)
  then have ne: "node \<noteq> i1" using sn by auto
  have inv1: "depth_inv c s1" and seen1: "seen s1 = seen s"
    and ann1: "the_ann s1 node = the_ann s node"
    using inv an by (auto simp: s1_def no_annot_def the_ann_alloc intro!: depth_inv_alloc)
  have s3: "s3 = s2\<lparr>items := items s3\<rparr>" by (rule filterByPositionalArgs_items[OF f])
  have dn: "a_depth (the_ann (ann_upd (\<lambda>a. a\<lparr>a_include := inc\<rparr>) i1 s3) node) = Some x"
    by (subst s3) (simp add: s2_def the_ann_ann_upd_other ne ann1 d)
  let ?F = "\<lambda>a. a\<lparr>a_parent := Some res, a_include := inc, a_depth := Some (x + 1)\<rparr>"
  have eq: "s' = (ann_upd ?F i1 s1)\<lparr>items := items s3\<rparr>"
    unfolding s' dn by (subst s3) (simp add: s2_def ann_upd_ann_upd)
  have "depth_inv c (ann_upd ?F i1 s1)"
    by (rule depth_inv_mark[OF inv1]) (use fresh seen1 x in \<open>auto simp: depth_pending_def depth_ok_def\<close>)
  moreover have "a_depth (the_ann (ann_upd ?F i1 s1) node) = Some x"
    using ne by (simp add: the_ann_ann_upd_other ann1 d)
  ultimately show ?thesis by (simp add: eq)
qed

lemma getChildren_depth_inv:
  assumes run: "getChildren c g args node res s = Inr (s', kids)"
      and inv: "depth_inv c s" and sn: "node \<in> set (seen s)"
  shows "depth_inv c s'"
  using run
proof (cases rule: getChildren_cases)
  case leaf
  with inv show ?thesis by simp
next
  case (expand i s1 es ks)
  from inv sn have an: "allocated s node" and ok: "depth_ok c (the_ann s node)"
    by (auto simp: depth_inv_def)
  from ok expand(1,2) obtain x where d: "a_depth (the_ann s node) = Some x"
    and x: "0 \<le> x" "x \<le> c_depth c"
    by (auto simp: depth_ok_def the_ann_def split: option.splits)
  let ?P = "\<lambda>t. depth_inv c t \<and> seen t = seen s \<and> a_depth (the_ann t node) = Some x"
  have p1: "?P s1"
  proof (rule mapE_invariant[OF expand(3), where P = ?P], goal_cases)
    case 1
    from inv d show ?case by simp
  next
    case (2 e t t' y)
    from 2(2) have it: "depth_inv c t" and st: "seen t = seen s"
      and dt: "a_depth (the_ann t node) = Some x" by simp_all
    from it st sn have at: "allocated t node" by (simp add: depth_inv_def)
    from edgesToNodes_depth_inv[OF 2(3) it] edgesToNodes_frame[OF 2(3)]
      edgesToNodes_depth_of[OF 2(3) at] st dt
    show ?case by simp
  qed
  have "?P s'"
  proof (rule mapE_invariant[OF expand(4), where P = ?P], goal_cases)
    case 1
    from p1 show ?case .
  next
    case (2 e t t' y)
    from 2(2) have it: "depth_inv c t" and st: "seen t = seen s"
      and dt: "a_depth (the_ann t node) = Some x" by simp_all
    from st sn have nt: "node \<in> set (seen t)" by simp
    from markChild_depth_inv[OF 2(3) it nt dt x] markChild_frame[OF 2(3)] st
    show ?case by simp
  qed
  then show ?thesis by simp
qed

lemma visit_state:
  assumes "visit c g node s = Inr (s', res)"
  shows "anns s' = anns (if a_parent (the_ann s node) = None
                          then ann_upd (\<lambda>a. a\<lparr>a_depth := Some 0\<rparr>) node s else s)"
    and "objs s' = objs (if a_parent (the_ann s node) = None
                          then ann_upd (\<lambda>a. a\<lparr>a_depth := Some 0\<rparr>) node s else s)"
  using assms
  by (auto simp: visit_def Let_def ann_of_deref
           split: sum.splits prod.splits option.splits if_splits)

lemma depth_inv_cong:
  assumes "anns s' = anns s" and "objs s' = objs s" and "seen s' = seen s"
  shows "depth_inv c s' = depth_inv c s"
proof -
  have "the_ann s' = the_ann s" "allocated s' = allocated s"
    using assms by (auto simp: the_ann_def allocated_def fun_eq_iff split: ref.splits)
  then show ?thesis by (simp add: depth_inv_def assms(3))
qed

lemma depth_inv_visit:
  assumes inv: "depth_inv c s" and al: "allocated s node"
  shows "depth_inv c ((if a_parent (the_ann s node) = None
                        then ann_upd (\<lambda>a. a\<lparr>a_depth := Some 0\<rparr>) node s else s)
                      \<lparr>seen := set_add node (seen s)\<rparr>)"
proof -
  define t where "t = (if a_parent (the_ann s node) = None
            then ann_upd (\<lambda>a. a\<lparr>a_depth := Some 0\<rparr>) node s else s)"
  have pend: "depth_pending c (the_ann s node)" using inv al by (simp add: depth_inv_def)
  have al_t: "allocated t r = allocated s r" for r by (simp add: t_def)
  have other: "the_ann t r = the_ann s r" if "r \<noteq> node" for r
    using that by (simp add: t_def the_ann_ann_upd_other)
  have self_ok: "depth_ok c (the_ann t node)"
    using pend al by (auto simp: t_def depth_pending_def depth_ok_def the_ann_ann_upd_same)
  have self_pd: "depth_pending c (the_ann t node)"
    using self_ok by (simp add: depth_pending_def)
  have 1: "allocated t r \<and> depth_ok c (the_ann t r)" if "r \<in> set (set_add node (seen s))" for r
  proof (cases "r = node")
    case True
    with al self_ok show ?thesis by (simp add: al_t)
  next
    case False
    with that have "r \<in> set (seen s)" by (auto simp: set_add_def split: if_splits)
    with inv have "allocated s r" "depth_ok c (the_ann s r)" by (auto simp: depth_inv_def)
    with False show ?thesis by (simp add: al_t other)
  qed
  have 2: "depth_pending c (the_ann t r)" if "allocated t r" for r
  proof (cases "r = node")
    case True
    with self_pd show ?thesis by simp
  next
    case False
    from that have "allocated s r" by (simp add: al_t)
    with inv False show ?thesis by (simp add: other depth_inv_def)
  qed
  have "depth_inv c (t\<lparr>seen := set_add node (seen s)\<rparr>)"
    unfolding depth_inv_def using 1 2 by simp
  then show ?thesis by (simp only: t_def)
qed

lemma visit_depth_inv:
  assumes run: "visit c g node s = Inr (s', res)"
      and inv: "depth_inv c s" and al: "allocated s node"
  shows "depth_inv c s'"
proof -
  let ?t = "(if a_parent (the_ann s node) = None
             then ann_upd (\<lambda>a. a\<lparr>a_depth := Some 0\<rparr>) node s else s)
            \<lparr>seen := set_add node (seen s)\<rparr>"
  have "depth_inv c s' = depth_inv c ?t"
    by (rule depth_inv_cong) (simp_all add: visit_state[OF run] visit_seen[OF run])
  with depth_inv_visit[OF inv al] show ?thesis by simp
qed

lemma walk_depth_inv:
  assumes "walk c g args = Inr (s, result)"
  shows "depth_inv c s"
proof -
  from assms obtain visited where
    run: "breadth_loop c g args [] [NodeRef 0] (init_state args) = Inr (s, visited)"
    by (rule walk_loop)
  show ?thesis
  proof (rule breadth_loop_invariant[OF run, where I = "\<lambda>v q t. depth_inv c t"], goal_cases)
    case 1
    show ?case
      by (simp add: depth_inv_def init_state_def depth_pending_def the_ann_def allocated_def
               no_annot_def split: ref.splits)
  next
    case (2 visited node queue s)
    then show ?case by simp
  next
    case (3 visited node queue s s1 res s2 kids)
    from 3(3) have al: "allocated s node"
      by (auto simp: is_object_def allocated_def split: ref.splits)
    have i1: "depth_inv c s1" by (rule visit_depth_inv[OF 3(4) 3(1) al])
    have "node \<in> set (seen s1)" by (simp add: visit_seen[OF 3(4)] set_add_def)
    then show ?case by (rule getChildren_depth_inv[OF 3(5) i1])
  qed
qed

lemma getChildren_length:
  assumes "getChildren c g args (NodeRef i) nodeResult s = Inr (s', kids)"
      and "\<not> depth_gt (a_depth (anns s i)) (c_depth c)"
  shows "length kids = length (filter (edge_kept c g (NodeRef i)) (n_edgesOut (g ! i)))
                        + length (filter (\<lambda>j. n_extraneous (g ! j)) (n_children (g ! i)))"
  using assms(1)
proof (cases rule: getChildren_cases)
  case leaf
  with assms(2) show ?thesis by auto
next
  case (expand i' s1 es ks)
  from expand(1) have i: "i' = i" by simp
  from mapE_length[OF expand(3)] mapE_length[OF expand(4)] expand(5) i
  show ?thesis by (simp add: length_sort_by)
qed

section \<open>Claim C1\<close>

text \<open>
  C1, as stated, fails: with the maximum depth 0 the walk still visits the direct
  dependency a of the root, at depth 1, and the tree output shows it under the root.
  Line 181 cuts the children of a node only when the depth of the node itself is greater
  than the maximum.
\<close>

theorem C1_depth_zero_counterexample:
  "NodeRef 1 \<in> set (seen (fst (projr (walk (ex_config 0 False False) ex_single [])))) \<and>
   a_depth (anns (fst (projr (walk (ex_config 0 False False) ex_single []))) 1) = Some 1 \<and>
   \<not> (1 \<le> c_depth (ex_config 0 False False)) \<and>
   o_output (ls (ex_config 0 False False) ex_single []) =
     [Archy [\<lparr>i_label = ''w@1.0.0 /w'', i_nodes = [ItemRef 1], i_include = False\<rparr>,
             \<lparr>i_label = ''a@1.0.0'', i_nodes = [], i_include = False\<rparr>] 0 False]"
  by code_simp

text \<open>
  C1, amended: at the end of a walk every visited object has a depth that is set, not
  negative and at most one more than the maximum depth (at most 0 when the maximum is
  below -1: the root is always visited). A node whose depth is greater than the maximum
  gets no children. So with the maximum 0 the root and its direct dependencies are
  visited, and nothing deeper.
\<close>

theorem C1_depth_at_most_one_beyond:
  assumes "walk c g args = Inr (s, result)" and "r \<in> set (seen s)"
  shows "(\<exists>x. a_depth (ann_of (deref g s r)) = Some x \<and> 0 \<le> x \<and> x \<le> max 0 (c_depth c + 1)) \<and>
         (depth_gt (a_depth (ann_of (deref g s0 node))) (c_depth c) \<longrightarrow>
            getChildren c g args node nodeResult s0 = Inr (s0, []))"
proof
  from walk_depth_inv[OF assms(1)] assms(2) have "depth_ok c (the_ann s r)"
    by (simp add: depth_inv_def)
  then show "\<exists>x. a_depth (ann_of (deref g s r)) = Some x \<and> 0 \<le> x \<and> x \<le> max 0 (c_depth c + 1)"
    by (auto simp: depth_ok_def ann_of_deref split: option.splits)
  show "depth_gt (a_depth (ann_of (deref g s0 node))) (c_depth c) \<longrightarrow>
            getChildren c g args node nodeResult s0 = Inr (s0, [])"
    by (cases node) (auto simp: getChildren_def deref_def)
qed


theorem C1_depth_at_most_one_beyond_witness:
  "\<not> isl (walk (ex_config 0 False False) ex_chain []) \<and>
   seen (final_state (ex_config 0 False False) ex_chain []) = [NodeRef 0, NodeRef 1] \<and>
   NodeRef 1 \<in> set (seen (final_state (ex_config 0 False False) ex_chain [])) \<and>
   a_depth (ann_of (deref ex_chain (final_state (ex_config 0 False False) ex_chain []) (NodeRef 1)))
     = Some 1 \<and>
   (1::int) \<le> max 0 (c_depth (ex_config 0 False False) + 1) \<and>
   depth_gt (a_depth (ann_of (deref ex_chain (final_state (ex_config 0 False False) ex_chain [])
                                (NodeRef 1))))
     (c_depth (ex_config 0 False False)) \<and>
   getChildren (ex_config 0 False False) ex_chain [] (NodeRef 1) 1
       (final_state (ex_config 0 False False) ex_chain [])
     = Inr (final_state (ex_config 0 False False) ex_chain [], [])"
proof -
  let ?c = "ex_config 0 False False"
  let ?s = "final_state ?c ex_chain []"
  have nl: "\<not> isl (walk ?c ex_chain [])" by code_simp
  have sn: "seen ?s = [NodeRef 0, NodeRef 1]" by code_simp
  then have m: "NodeRef 1 \<in> set (seen ?s)" by simp
  have d: "a_depth (ann_of (deref ex_chain ?s (NodeRef 1))) = Some 1" by code_simp
  have b: "(1::int) \<le> max 0 (c_depth ?c + 1)" by code_simp
  have gt: "depth_gt (a_depth (ann_of (deref ex_chain ?s (NodeRef 1)))) (c_depth ?c)"
    by code_simp
  from C1_depth_at_most_one_beyond[OF walk_final[OF nl] m, of ?s "NodeRef 1" 1] gt
  have "getChildren ?c ex_chain [] (NodeRef 1) 1 ?s = Inr (?s, [])" by blast
  with nl sn m d b gt show ?thesis by blast
qed

section \<open>Claim C2\<close>

text \<open>
  C2 on the tree w -> a -> bar with the filter bar, in tree mode: bar satisfies the
  filter and is marked included, but neither its parent a nor the root is. The loop of
  lines 110-114 sets \<open>_include\<close> on the result item of a (nothing reads it there) and
  stops, so a is left out of the root's \<open>nodes\<close>, the tree is rendered as empty and the
  exit code is 1.
\<close>

theorem C2_ancestors_not_marked:
  "a_include (anns (fst (projr (walk (ex_config 10 False False) ex_chain [''bar'']))) 2) \<and>
   \<not> a_include (anns (fst (projr (walk (ex_config 10 False False) ex_chain [''bar'']))) 1) \<and>
   \<not> a_include (anns (fst (projr (walk (ex_config 10 False False) ex_chain [''bar'']))) 0) \<and>
   ls (ex_config 10 False False) ex_chain [''bar''] =
     \<lparr>o_output =
        [Archy [\<lparr>i_label = ''w@1.0.0 /w'', i_nodes = [Text ''(empty)''], i_include = False\<rparr>,
                \<lparr>i_label = ''a@1.0.0'', i_nodes = [ItemRef 2], i_include = True\<rparr>,
                \<lparr>i_label = ''bar@1.0.0'', i_nodes = [], i_include = False\<rparr>] 0 False],
      o_exitCode = Some 1, o_thrown = None\<rparr>"
  by code_simp

text \<open>
  In every mode \<open>shouldInclude\<close> leaves the symbol properties of all traversal nodes as
  they are, and in parseable mode it changes nothing at all.
\<close>

lemma shouldInclude_marks_no_node:
  assumes "shouldInclude c g node spec s = Inr (s', b)"
  shows "anns s' = anns s \<and> objs s' = objs s \<and> (c_parseable c \<longrightarrow> s' = s)"
  using assms
  by (auto simp: shouldInclude_def split: option.splits if_splits)

section \<open>Claim C3\<close>

text \<open>
  C3 on the diamond w -> a -> c, w -> b -> c: when the children of b are produced, c is
  in the queue but has not been visited, so it is not in \<open>seen\<close>; no deduped object is
  made, c gets b as its parent, and it is rendered once, under b. Under a, where it was
  reached first, nothing is shown.
\<close>

theorem C3_diamond_not_deduped:
  "objs (fst (projr (walk (ex_config 10 False False) ex_diamond []))) = [] \<and>
   ls (ex_config 10 False False) ex_diamond [] =
     \<lparr>o_output =
        [Archy [\<lparr>i_label = ''w@1.0.0 /w'', i_nodes = [ItemRef 1, ItemRef 2], i_include = False\<rparr>,
                \<lparr>i_label = ''a@1.0.0'', i_nodes = [], i_include = False\<rparr>,
                \<lparr>i_label = ''b@1.0.0'', i_nodes = [ItemRef 3], i_include = False\<rparr>,
                \<lparr>i_label = ''c@1.0.0'', i_nodes = [], i_include = False\<rparr>] 0 False],
      o_exitCode = None, o_thrown = None\<rparr>"
  by code_simp

section \<open>Claim C4\<close>

text \<open>
  C4, as stated, fails: with a comparator that, like a collation, puts abbrev in front of
  JSONStream, the children of the root come in that order, which is not ascending in
  byte order (\<open>J\<close> is 74, \<open>a\<close> is 97).
\<close>

theorem C4_byte_order_counterexample:
  "o_output (ls ((ex_config 10 False False)\<lparr>c_localeCompare := caseless_compare\<rparr>) ex_case []) =
     [Archy [\<lparr>i_label = ''w@1.0.0 /w'', i_nodes = [ItemRef 1, ItemRef 2], i_include = False\<rparr>,
             \<lparr>i_label = ''abbrev@1.0.0'', i_nodes = [], i_include = False\<rparr>,
             \<lparr>i_label = ''JSONStream@1.0.0'', i_nodes = [], i_include = False\<rparr>] 0 False] \<and>
   \<not> sorted [''abbrev@1.0.0'', ''JSONStream@1.0.0'']"
  by code_simp

text \<open>
  C4, amended: the children that \<open>getChildren\<close> returns for a node are sorted by pkgid
  in the order of the comparator \<open>localeCompare\<close> (not byte order), whenever that
  comparator is total and transitive.
\<close>

theorem C4_children_sorted:
  assumes "\<forall>a b. c_localeCompare c a b \<le> 0 \<or> c_localeCompare c b a \<le> 0"
      and "\<forall>a b d. c_localeCompare c a b \<le> 0 \<longrightarrow> c_localeCompare c b d \<le> 0 \<longrightarrow> c_localeCompare c a d \<le> 0"
      and "getChildren c g args node nodeResult s = Inr (s', kids)"
  shows "sorted_wrt (\<lambda>a b. c_localeCompare c (pkgid_of (deref g s' a)) (pkgid_of (deref g s' b)) \<le> 0) kids"
proof -
  let ?cmp = "\<lambda>a b. c_localeCompare c (pkgid_of (deref g s' a)) (pkgid_of (deref g s' b))"
  have total: "\<And>a b. ?cmp a b \<le> 0 \<or> ?cmp b a \<le> 0" using assms(1) by blast
  have trans: "\<And>a b d. ?cmp a b \<le> 0 \<Longrightarrow> ?cmp b d \<le> 0 \<Longrightarrow> ?cmp a d \<le> 0"
    using assms(2) by blast
  from assms(3) show ?thesis
  proof (cases rule: getChildren_cases)
    case leaf
    then show ?thesis by simp
  next
    case (expand i s1 es ks)
    show ?thesis unfolding expand(5) by (rule sorted_sort_by[of ?cmp, OF total trans])
  qed
qed

theorem C4_children_sorted_witness:
  "snd (projr (getChildren (ex_config 10 False False) ex_diamond [] (NodeRef 0) 0
       (fst (projr (visit (ex_config 10 False False) ex_diamond (NodeRef 0) (init_state []))))))
     = [NodeRef 1, NodeRef 2] \<and>
   sorted_wrt (\<lambda>a b. pkgid_of (deref ex_diamond (init_state []) a) \<le> pkgid_of (deref ex_diamond (init_state []) b))
     [NodeRef 1, NodeRef 2]"
proof -
  let ?c = "ex_config 10 False False"
  let ?s = "fst (projr (visit ?c ex_diamond (NodeRef 0) (init_state [])))"
  let ?r = "getChildren ?c ex_diamond [] (NodeRef 0) 0 ?s"
  have "\<not> isl ?r" by code_simp
  then have r: "?r = Inr (fst (projr ?r), snd (projr ?r))" by (cases ?r) auto
  have k: "snd (projr ?r) = [NodeRef 1, NodeRef 2]" by code_simp
  have 1: "\<forall>a b. c_localeCompare ?c a b \<le> 0 \<or> c_localeCompare ?c b a \<le> 0"
    by (auto simp: byte_compare_le)
  have 2: "\<forall>a b d. c_localeCompare ?c a b \<le> 0 \<longrightarrow> c_localeCompare ?c b d \<le> 0 \<longrightarrow> c_localeCompare ?c a d \<le> 0"
    by (auto simp: byte_compare_le)
  from C4_children_sorted[OF 1 2 r] k show ?thesis
    by (simp add: byte_compare_le deref_def)
qed

section \<open>Claim C5\<close>

text \<open>
  C5 on a root whose dependency bar is missing, with the filter foo: the placeholder of
  bar is a plain object without \<open>satisfies\<close>, the call on line 107 throws during the walk,
  and ls fails with nothing printed.
\<close>

theorem C5_failure_without_output:
  "ls (ex_config 10 False False) ex_missing [''foo''] =
     \<lparr>o_output = [], o_exitCode = None, o_thrown = Some TypeError\<rparr>"
  by code_simp

text \<open>
  When the walk returns, the rendering is printed once, and then the root parse failure,
  or else the failure with the joined problems, is thrown.
\<close>

lemma ls_failures_follow_output:
  assumes "wf_graph g" and "walk c g args = Inr (s, result)"
  shows "length (o_output (ls c g args)) = 1 \<and>
         o_thrown (ls c g args) =
           (if (''EJSONPARSE'', c_root_package_json c) \<in> set (n_errors (g ! 0))
            then Some (Coded ''EJSONPARSE'' ''Failed to parse root package.json'')
            else if problems s \<noteq> []
            then Some (Coded ''ELSPROBLEMS'' (join (c_EOL c) (problems s)))
            else None)"
  unfolding ls_report[OF assms]
  by (auto simp: report_def Let_def filter_empty_conv)

section \<open>Claim C6\<close>




section \<open>Claim C7\<close>




section \<open>Claim C8\<close>

text \<open>
  C8, as stated, fails twice. With \<open>link\<close> set, the root's dependency a, which is not a
  link, is dropped, but the extraneous package x, not a link either, is kept: the filters
  are applied to edges, and the extraneous children are appended after them (line 191).
  And the value develop of \<open>only\<close> matches \<open>/^dev/\<close>, but the test on line 176 is
  \<open>/^dev(elopment)?$/\<close>, so the dev filter is off and the production dependency a of the
  root is kept.
\<close>

theorem C8_link_and_only_counterexample:
  "c_link ((ex_config 10 False False)\<lparr>c_link := True\<rparr>) \<and>
   \<not> n_isLink (ex_extraneous ! 2) \<and>
   o_output (ls ((ex_config 10 False False)\<lparr>c_link := True\<rparr>) ex_extraneous []) =
     [Archy [\<lparr>i_label = ''w@1.0.0 /w'', i_nodes = [ItemRef 1], i_include = False\<rparr>,
             \<lparr>i_label = ''x@1.0.0 extraneous'', i_nodes = [], i_include = False\<rparr>] 0 False] \<and>
   take 3 ''develop'' = ''dev'' \<and>
   \<not> e_dev (ex_dep ''w'' ''a'' 1) \<and>
   o_output (ls ((ex_config 10 False False)\<lparr>c_only := Some ''develop''\<rparr>) ex_single []) =
     [Archy [\<lparr>i_label = ''w@1.0.0 /w'', i_nodes = [ItemRef 1], i_include = False\<rparr>,
             \<lparr>i_label = ''a@1.0.0'', i_nodes = [], i_include = False\<rparr>] 0 False]"
  by code_simp

text \<open>
  C8, amended: for a node other than the root, \<open>getChildren\<close> does what it does with
  every kind filter switched off, so no edge is dropped there. At the root an edge is kept
  exactly when: it is a dev edge, if the dev filter is on (\<open>dev\<close>, \<open>development\<close>, or
  \<open>only\<close> equal to dev or development); it is not a dev, peer or peerOptional edge, if
  the prod filter is on (\<open>prod\<close>, \<open>production\<close>, or \<open>only\<close> equal to prod or
  production); its target exists and is a link, if \<open>link\<close> is set. The children of a
  node that is expanded are as many as its kept edges and its extraneous children
  together: the filters drop edges only.
\<close>

theorem C8_kind_filters_root_only:
  "(node \<noteq> NodeRef 0 \<longrightarrow>
      getChildren c g args node nodeResult s =
      getChildren (c\<lparr>c_dev := False, c_development := False, c_link := False, c_only := None,
                      c_prod := False, c_production := False\<rparr>) g args node nodeResult s) \<and>
   (edge_kept c g (NodeRef 0) edge \<longleftrightarrow>
      ((c_dev c \<or> c_development c \<or> c_only c = Some ''dev'' \<or> c_only c = Some ''development'')
         \<longrightarrow> e_dev edge) \<and>
      ((c_prod c \<or> c_production c \<or> c_only c = Some ''prod'' \<or> c_only c = Some ''production'')
         \<longrightarrow> \<not> e_dev edge \<and> \<not> e_peer edge \<and> \<not> e_peerOptional edge) \<and>
      (c_link c \<longrightarrow> (\<exists>j. e_to edge = Some j \<and> n_isLink (g ! j)))) \<and>
   (getChildren c g args (NodeRef i) nodeResult s = Inr (s', kids) \<and>
    \<not> depth_gt (a_depth (anns s i)) (c_depth c) \<longrightarrow>
      length kids = length (filter (edge_kept c g (NodeRef i)) (n_edgesOut (g ! i)))
                    + length (filter (\<lambda>j. n_extraneous (g ! j)) (n_children (g ! i))))"
proof (intro conjI)
  define c' where "c' = c\<lparr>c_dev := False, c_development := False, c_link := False, c_only := None,
               c_prod := False, c_production := False\<rparr>"
  have p: "c_parseable c' = c_parseable c" and l: "c_localeCompare c' = c_localeCompare c"
    and d: "c_depth c' = c_depth c"
    by (simp_all add: c'_def)
  show "node \<noteq> NodeRef 0 \<longrightarrow>
      getChildren c g args node nodeResult s =
      getChildren (c\<lparr>c_dev := False, c_development := False, c_link := False, c_only := None,
                      c_prod := False, c_production := False\<rparr>) g args node nodeResult s"
    unfolding c'_def[symmetric]
  proof
    assume n: "node \<noteq> NodeRef 0"
    have k: "edge_kept c' g node = edge_kept c g node"
      using n by (auto simp: edge_kept_def filterDev_def filterProd_def filterLink_def fun_eq_iff)
    have s: "\<And>n. shouldInclude c' g n = shouldInclude c g n"
      by (simp add: shouldInclude_def fun_eq_iff p)
    have f: "\<And>n. filterByPositionalArgs c' g args n = filterByPositionalArgs c g args n"
      by (simp add: filterByPositionalArgs_def s fun_eq_iff cong: if_cong)
    have m: "markChild c' g args node nodeResult = markChild c g args node nodeResult"
      by (simp add: markChild_def f fun_eq_iff cong: if_cong)
    show "getChildren c g args node nodeResult s = getChildren c' g args node nodeResult s"
      unfolding getChildren_def k m l d by (rule refl)
  qed
  show "edge_kept c g (NodeRef 0) edge \<longleftrightarrow>
      ((c_dev c \<or> c_development c \<or> c_only c = Some ''dev'' \<or> c_only c = Some ''development'')
         \<longrightarrow> e_dev edge) \<and>
      ((c_prod c \<or> c_production c \<or> c_only c = Some ''prod'' \<or> c_only c = Some ''production'')
         \<longrightarrow> \<not> e_dev edge \<and> \<not> e_peer edge \<and> \<not> e_peerOptional edge) \<and>
      (c_link c \<longrightarrow> (\<exists>j. e_to edge = Some j \<and> n_isLink (g ! j)))"
    by (auto simp: edge_kept_def filterDev_def filterProd_def filterLink_def split: option.splits)
  show "getChildren c g args (NodeRef i) nodeResult s = Inr (s', kids) \<and>
    \<not> depth_gt (a_depth (anns s i)) (c_depth c) \<longrightarrow>
      length kids = length (filter (edge_kept c g (NodeRef i)) (n_edgesOut (g ! i)))
                    + length (filter (\<lambda>j. n_extraneous (g ! j)) (n_children (g ! i)))"
    using getChildren_length by blast
qed

theorem C8_kind_filters_root_only_witness:
  "NodeRef 1 \<noteq> NodeRef 0 \<and>
   getChildren ((ex_config 10 False False)\<lparr>c_dev := True\<rparr>) ex_diamond [] (NodeRef 1) 1
     (init_state []) =
   getChildren ((ex_config 10 False False)\<lparr>c_dev := False, c_development := False, c_link := False,
                  c_only := None, c_prod := False, c_production := False\<rparr>) ex_diamond []
     (NodeRef 1) 1 (init_state []) \<and>
   c_dev ((ex_config 10 False False)\<lparr>c_dev := True\<rparr>) \<and>
   \<not> e_dev (ex_dep ''w'' ''a'' 1) \<and>
   \<not> edge_kept ((ex_config 10 False False)\<lparr>c_dev := True\<rparr>) ex_diamond (NodeRef 0)
       (ex_dep ''w'' ''a'' 1) \<and>
   \<not> isl (getChildren ((ex_config 10 False False)\<lparr>c_dev := True\<rparr>) ex_extraneous [] (NodeRef 0) 0
            (init_state [])) \<and>
   length (snd (projr (getChildren ((ex_config 10 False False)\<lparr>c_dev := True\<rparr>) ex_extraneous []
                         (NodeRef 0) 0 (init_state [])))) = 0 + 1"
proof -
  let ?c = "(ex_config 10 False False)\<lparr>c_dev := True\<rparr>"
  let ?r = "getChildren ?c ex_extraneous [] (NodeRef 0) 0 (init_state [])"
  note th = C8_kind_filters_root_only
    [of "NodeRef 1" ?c ex_diamond "[]" 1 "init_state []" "ex_dep ''w'' ''a'' 1"]
  have nl: "\<not> isl ?r" by code_simp
  then have r: "?r = Inr (fst (projr ?r), snd (projr ?r))" by (cases ?r) auto
  have d: "\<not> depth_gt (a_depth (anns (init_state []) 0)) (c_depth ?c)" by code_simp
  have k: "length (filter (edge_kept ?c ex_extraneous (NodeRef 0)) (n_edgesOut (ex_extraneous ! 0))) = 0"
    by code_simp
  have x: "length (filter (\<lambda>j. n_extraneous (ex_extraneous ! j)) (n_children (ex_extraneous ! 0))) = 1"
    by code_simp
  from C8_kind_filters_root_only
    [of _ ?c ex_extraneous "[]" 0 "init_state []" _ 0 "fst (projr ?r)" "snd (projr ?r)"] r d k x
  have "length (snd (projr ?r)) = 0 + 1" by simp
  with th nl show ?thesis by (simp add: ex_dep_def)
qed

section \<open>Claim C9\<close>

text \<open>
  C9: when the walk has produced its result and the item of the root has no entries, the
  entries become the single string \<open>(empty)\<close> (nothing else changes in the tree handed
  to archy), and the exit code is set to 1 exactly when, in addition, positional filters
  were given; otherwise the exit code is not assigned and the entries stay as they are.
\<close>

theorem C9_empty_placeholder_and_exit_code:
  assumes "wf_graph g" and "walk c g args = Inr (s, result)"
  shows "o_exitCode (ls c g args) =
           (if i_nodes (items s ! result) = [] \<and> args \<noteq> [] then Some 1 else None) \<and>
         (\<not> c_parseable c \<longrightarrow>
            (\<exists>its. o_output (ls c g args) = [Archy its result (c_unicode c)] \<and>
                   length its = length (items s) \<and>
                   (\<forall>j. j \<noteq> result \<longrightarrow> its ! j = items s ! j) \<and>
                   i_label (its ! result) = i_label (items s ! result) \<and>
                   i_nodes (its ! result) =
                     (if i_nodes (items s ! result) = [] then [Text ''(empty)'']
                      else i_nodes (items s ! result))))"
proof -
  have r: "result < length (items s)" by (rule walk_result_valid[OF assms(2)])
  show ?thesis
    unfolding ls_report[OF assms]
    using r by (auto simp: report_def Let_def)
qed


theorem C9_empty_placeholder_and_exit_code_witness:
  "wf_graph ex_single \<and> \<not> isl (walk (ex_config 10 False False) ex_single [''foo'']) \<and>
   i_nodes (items (final_state (ex_config 10 False False) ex_single [''foo''])
              ! final_result (ex_config 10 False False) ex_single [''foo'']) = [] \<and>
   o_exitCode (ls (ex_config 10 False False) ex_single [''foo'']) = Some 1 \<and>
   o_output (ls (ex_config 10 False False) ex_single [''foo'']) =
     [Archy [\<lparr>i_label = ''w@1.0.0 /w'', i_nodes = [Text ''(empty)''], i_include = False\<rparr>,
             \<lparr>i_label = ''a@1.0.0'', i_nodes = [], i_include = False\<rparr>] 0 False]"
proof -
  have wf: "wf_graph ex_single" by code_simp
  have nl: "\<not> isl (walk (ex_config 10 False False) ex_single [''foo''])" by code_simp
  have e: "i_nodes (items (final_state (ex_config 10 False False) ex_single [''foo''])
              ! final_result (ex_config 10 False False) ex_single [''foo'']) = []" by code_simp
  have out: "o_output (ls (ex_config 10 False False) ex_single [''foo'']) =
     [Archy [\<lparr>i_label = ''w@1.0.0 /w'', i_nodes = [Text ''(empty)''], i_include = False\<rparr>,
             \<lparr>i_label = ''a@1.0.0'', i_nodes = [], i_include = False\<rparr>] 0 False]" by code_simp
  from C9_empty_placeholder_and_exit_code[OF wf walk_final[OF nl]] e
  have "o_exitCode (ls (ex_config 10 False False) ex_single [''foo'']) = Some 1" by simp
  with wf nl e out show ?thesis by blast
qed

section \<open>Claim C10\<close>

text \<open>
  C10: in parseable mode, when the walk has produced its result, the text printed is the
  one computed from the Arborist nodes of \<open>seen\<close> alone, whatever the plain objects
  are: no plain object contributes a line and none of its properties is read. The
  placeholder that \<open>edgesToNodes\<close> makes for a missing dependency is such a plain object:
  it carries the name, the pkgid and the missing marker, and has no path.
\<close>

theorem C10_placeholders_have_no_line:
  assumes "wf_graph g" and "c_parseable c" and "walk c g args = Inr (s, result)"
  shows "(\<forall>os. o_output (ls c g args) =
                 [Flat (trim (parseable_lines c g (s\<lparr>objs := os\<rparr>) (filter isNode (seen s)) []))]) \<and>
         ((e_missing edge \<or> (e_optional edge \<and> e_to edge = None)) \<and>
          edgesToNodes edge s0 = Inr (s1, r) \<longrightarrow>
            (\<exists>k. r = ObjRef k \<and> \<not> isNode r \<and> path_of (deref g s1 r) = None \<and>
                 p_name (objs s1 ! k) = Some (e_name edge) \<and>
                 p_pkgid (objs s1 ! k) = e_name edge @ ''@'' @ e_spec edge \<and>
                 p_missing (objs s1 ! k) = Some (e_from_pkgid edge) \<and>
                 p_package (objs s1 ! k) = None \<and> \<not> p_dedupe (objs s1 ! k)))"
proof
  have i: "parseable_lines c g (t\<lparr>items := its\<rparr>) deps out = parseable_lines c g t deps out"
    for t its deps out
    by (induction deps arbitrary: out) simp_all
  show "\<forall>os. o_output (ls c g args) =
                 [Flat (trim (parseable_lines c g (s\<lparr>objs := os\<rparr>) (filter isNode (seen s)) []))]"
    unfolding ls_report[OF assms(1,3)] parseable_lines_nodes_only
    using assms(2) by (simp add: report_def Let_def i)
  show "(e_missing edge \<or> (e_optional edge \<and> e_to edge = None)) \<and>
          edgesToNodes edge s0 = Inr (s1, r) \<longrightarrow>
            (\<exists>k. r = ObjRef k \<and> \<not> isNode r \<and> path_of (deref g s1 r) = None \<and>
                 p_name (objs s1 ! k) = Some (e_name edge) \<and>
                 p_pkgid (objs s1 ! k) = e_name edge @ ''@'' @ e_spec edge \<and>
                 p_missing (objs s1 ! k) = Some (e_from_pkgid edge) \<and>
                 p_package (objs s1 ! k) = None \<and> \<not> p_dedupe (objs s1 ! k))"
    by (auto simp: edgesToNodes_def Let_def ann_upd_def deref_def)
qed


theorem C10_placeholders_have_no_line_witness:
  "wf_graph ex_missing \<and> c_parseable (ex_config 10 True False) \<and>
   \<not> isl (walk (ex_config 10 True False) ex_missing []) \<and>
   e_missing (ex_missing_dep ''w'' ''bar'') \<and>
   \<not> isl (edgesToNodes (ex_missing_dep ''w'' ''bar'') (init_state [])) \<and>
   snd (projr (edgesToNodes (ex_missing_dep ''w'' ''bar'') (init_state []))) = ObjRef 0 \<and>
   seen (final_state (ex_config 10 True False) ex_missing []) = [NodeRef 0, ObjRef 0] \<and>
   o_output (ls (ex_config 10 True False) ex_missing []) = [Flat ''/w''] \<and>
   o_output (ls (ex_config 10 True False) ex_missing []) =
     [Flat (trim (parseable_lines (ex_config 10 True False) ex_missing
                    ((final_state (ex_config 10 True False) ex_missing [])\<lparr>objs := []\<rparr>)
                    (filter isNode (seen (final_state (ex_config 10 True False) ex_missing []))) []))]"
proof -
  let ?c = "ex_config 10 True False"
  let ?e = "ex_missing_dep ''w'' ''bar''"
  have wf: "wf_graph ex_missing" by code_simp
  have p: "c_parseable ?c" by code_simp
  have nl: "\<not> isl (walk ?c ex_missing [])" by code_simp
  have m: "e_missing ?e" by code_simp
  have ne: "\<not> isl (edgesToNodes ?e (init_state []))" by code_simp
  have r: "snd (projr (edgesToNodes ?e (init_state []))) = ObjRef 0" by code_simp
  have sn: "seen (final_state ?c ex_missing []) = [NodeRef 0, ObjRef 0]" by code_simp
  have out: "o_output (ls ?c ex_missing []) = [Flat ''/w'']" by code_simp
  from C10_placeholders_have_no_line[OF wf p walk_final[OF nl]]
  have "o_output (ls ?c ex_missing []) =
     [Flat (trim (parseable_lines ?c ex_missing ((final_state ?c ex_missing [])\<lparr>objs := []\<rparr>)
                    (filter isNode (seen (final_state ?c ex_missing []))) []))]"
    by blast
  with wf p nl m ne r sn out show ?thesis by blast
qed

end
